theory Spec2Isabelle
  imports Complex_Main "HOL-Library.Word" "HOL-Library.Log_Nat"
begin

unbundle bit_operations_syntax

section \<open>The JPEG 2000 format plug-in: planar samples to interleaved bytes\<close>

text \<open>
  \<^verbatim>\<open>jp2Format().decode\<close> (src/index.js, lines 25-35) receives \<^verbatim>\<open>{ width, height, data }\<close>
  from the OpenJPEG wrapper and rewrites \<^verbatim>\<open>data\<close> into a fresh \<^verbatim>\<open>Buffer\<close>:
  \<^verbatim>\<open>
  const rgbaBuffer = Buffer.alloc(data.length);
  for (let i = 0; i < data.length; i++) {
    rgbaBuffer[i] = data[(data.length / 4) * (i % 4) + Math.round(i / 4)] || 0;
  }
  \<close>
  The samples are bytes. JavaScript numbers are modelled by rationals: every value computed
  here (a quarter of a length, a sum of two such values) is exactly representable as a double
  for any buffer that fits in memory, so no rounding other than \<^verbatim>\<open>Math.round\<close> occurs.
\<close>

type_synonym byte = "8 word"

text \<open>\<^verbatim>\<open>Math.round(q)\<close>: the nearest integer, a half goes up.\<close>

definition Math_round :: "rat \<Rightarrow> int" where
  "Math_round q = \<lfloor>q + 1 / 2\<rfloor>"

text \<open>
  \<^verbatim>\<open>xs[q]\<close> on a typed array: the element when \<open>q\<close> is an integer index inside the array,
  \<^verbatim>\<open>undefined\<close> (here \<open>None\<close>) for a fractional or out-of-range \<open>q\<close>.
\<close>

definition js_index :: "'a list \<Rightarrow> rat \<Rightarrow> 'a option" where
  "js_index xs q =
     (if q = of_int \<lfloor>q\<rfloor> \<and> 0 \<le> q \<and> q < of_nat (length xs)
      then Some (xs ! nat \<lfloor>q\<rfloor>) else None)"

text \<open>\<^verbatim>\<open>v || 0\<close>: \<^verbatim>\<open>undefined\<close> and \<open>0\<close> are falsy and give \<open>0\<close>, any other sample is kept.\<close>

definition or_zero :: "byte option \<Rightarrow> byte" where
  "or_zero v = (case v of None \<Rightarrow> 0 | Some b \<Rightarrow> (if b = 0 then 0 else b))"

text \<open>The index expression \<^verbatim>\<open>(data.length / 4) * (i % 4) + Math.round(i / 4)\<close>.\<close>

definition sampleIndex :: "nat \<Rightarrow> nat \<Rightarrow> rat" where
  "sampleIndex len i = (of_nat len / 4) * of_nat (i mod 4) + of_int (Math_round (of_nat i / 4))"

text \<open>The loop: \<open>rgbaBuffer\<close> starts zero-filled and position \<open>i\<close> is written at step \<open>i\<close>.\<close>

definition interleave :: "byte list \<Rightarrow> byte list" where
  "interleave data =
     fold (\<lambda>i rgbaBuffer. rgbaBuffer[i := or_zero (js_index data (sampleIndex (length data) i))])
       [0..<length data] (replicate (length data) 0)"

text \<open>\<^verbatim>\<open>decode\<close> on the decoder's output \<open>(width, height, data)\<close>; the sizes pass through.\<close>

definition decode :: "nat \<times> nat \<times> byte list \<Rightarrow> nat \<times> nat \<times> byte list" where
  "decode img = (case img of (width, height, data) \<Rightarrow> (width, height, interleave data))"

text \<open>
  The planar layout the claims speak of: four planes of equal length stored back to back,
  plane \<open>p\<close> being the \<open>p\<close>-th quarter of the flat buffer.
\<close>

definition plane :: "byte list \<Rightarrow> nat \<Rightarrow> byte list" where
  "plane data p = take (length data div 4) (drop (p * (length data div 4)) data)"

section \<open>Choosing the bitmap inside an icon container\<close>

text \<open>
  The \<^verbatim>\<open>set\<close> command (src/index.js, lines 158-178) reads the icon file and tries to
  replace it by the largest image entry of the container:
  \<^verbatim>\<open>
  let iconBuffer = fs.readFileSync(srcIconFile);
  try {
    const subIconBuffer = Object.entries(icns.parse(iconBuffer))
      .filter(([k]) => icns.isImageType(k))
      .map(([, v]) => v)
      .sort((a, b) => b.length - a.length)[0];
    if (subIconBuffer) { iconBuffer = subIconBuffer; }
  } catch (e) { }
  let originalIcon;
  try { originalIcon = await Jimp.read(iconBuffer); }
  catch (e) { ...; process.exit(1); }
  \<close>
  \<^verbatim>\<open>icns.parse\<close>, \<^verbatim>\<open>icns.isImageType\<close> and \<^verbatim>\<open>Jimp.read\<close> belong to libraries; they are
  parameters of the model. The entries are the pairs of \<^verbatim>\<open>Object.entries\<close>, in its order.
\<close>

type_synonym buffer = "byte list"

datatype error = ContainerParseError | DecodeError | OutOfBounds | ProcessExit nat

text \<open>
  \<^verbatim>\<open>Array.prototype.sort(cmp)\<close>: a stable sort; \<open>a\<close> stays before \<open>b\<close> unless
  \<open>cmp a b > 0\<close>. Written as insertion from the right, which keeps equal elements in order.
\<close>

fun insert_by :: "('a \<Rightarrow> 'a \<Rightarrow> int) \<Rightarrow> 'a \<Rightarrow> 'a list \<Rightarrow> 'a list" where
  "insert_by cmp x [] = [x]"
| "insert_by cmp x (y # ys) = (if cmp x y \<le> 0 then x # y # ys else y # insert_by cmp x ys)"

definition js_sort :: "('a \<Rightarrow> 'a \<Rightarrow> int) \<Rightarrow> 'a list \<Rightarrow> 'a list" where
  "js_sort cmp xs = foldr (insert_by cmp) xs []"

text \<open>The comparator \<^verbatim>\<open>(a, b) => b.length - a.length\<close>.\<close>

definition byLengthDesc :: "buffer \<Rightarrow> buffer \<Rightarrow> int" where
  "byLengthDesc a b = int (length b) - int (length a)"

text \<open>The filter, map, sort and \<^verbatim>\<open>[0]\<close> chain; \<^verbatim>\<open>[0]\<close> of an empty array is \<^verbatim>\<open>undefined\<close>.\<close>

definition subIconBuffer :: "(string \<Rightarrow> bool) \<Rightarrow> (string \<times> buffer) list \<Rightarrow> buffer option" where
  "subIconBuffer isImageType entries =
     (case js_sort byLengthDesc (map snd (filter (\<lambda>(k, v). isImageType k) entries)) of
        [] \<Rightarrow> None
      | v # _ \<Rightarrow> Some v)"

text \<open>
  The first \<^verbatim>\<open>try\<close>: an exception of the parser is swallowed and \<open>iconBuffer\<close> keeps the
  file's bytes; so it does when nothing was selected (a \<^verbatim>\<open>Buffer\<close> is always truthy).
\<close>

definition chooseIconBuffer ::
  "(buffer \<Rightarrow> error + (string \<times> buffer) list) \<Rightarrow> (string \<Rightarrow> bool) \<Rightarrow> buffer \<Rightarrow> buffer" where
  "chooseIconBuffer parse isImageType iconBuffer =
     (case parse iconBuffer of
        Inl e \<Rightarrow> iconBuffer
      | Inr entries \<Rightarrow>
          (case subIconBuffer isImageType entries of
             None \<Rightarrow> iconBuffer
           | Some sub \<Rightarrow> sub))"

text \<open>The second \<^verbatim>\<open>try\<close>: any exception of \<^verbatim>\<open>Jimp.read\<close> ends the process with status 1.\<close>

definition readOriginalIcon ::
  "(buffer \<Rightarrow> error + (string \<times> buffer) list) \<Rightarrow> (string \<Rightarrow> bool) \<Rightarrow>
   (buffer \<Rightarrow> error + 'img) \<Rightarrow> buffer \<Rightarrow> error + 'img" where
  "readOriginalIcon parse isImageType read iconBuffer =
     (case read (chooseIconBuffer parse isImageType iconBuffer) of
        Inl e \<Rightarrow> Inl (ProcessExit 1)
      | Inr originalIcon \<Rightarrow> Inr originalIcon)"

section \<open>The raster canvas\<close>

text \<open>
  Images are objects of the Jimp library, which is not part of the source tree. The canvas
  is modelled from the specification's data model and its section on the raster canvas.
\<close>

text \<open>
  Modelled from the spec: the Jimp image object (RasterImage): a width, a height and one
  packed R,G,B,A value per pixel in row-major order.
\<close>

record image =
  width :: nat
  height :: nat
  pixels :: "32 word list"

text \<open>The invariant of the data model: buffer length = width * height.\<close>

definition wf_image :: "image \<Rightarrow> bool" where
  "wf_image img \<longleftrightarrow> length (pixels img) = width img * height img"

text \<open>
  Modelled from the spec: the image constructor \<^verbatim>\<open>new Jimp({ width, height, color })\<close>:
  a new buffer pre-filled with one colour (transparent black, 0, when none is given).
\<close>

definition create :: "nat \<Rightarrow> nat \<Rightarrow> 32 word \<Rightarrow> image" where
  "create w h fillColor = \<lparr>width = w, height = h, pixels = replicate (w * h) fillColor\<rparr>"

text \<open>
  Modelled from the spec: \<^verbatim>\<open>getPixelColor\<close> and \<^verbatim>\<open>setPixelColor\<close> of Jimp: bounds-checked
  access to one packed pixel, failing with \<open>OutOfBounds\<close> outside the buffer. The packed
  value is handed to JavaScript as an unsigned number.
\<close>

definition getPixelColor :: "image \<Rightarrow> nat \<Rightarrow> nat \<Rightarrow> error + int" where
  "getPixelColor img x y =
     (if x < width img \<and> y < height img
      then Inr (uint (pixels img ! (width img * y + x)))
      else Inl OutOfBounds)"

definition setPixelColor :: "int \<Rightarrow> nat \<Rightarrow> nat \<Rightarrow> image \<Rightarrow> error + image" where
  "setPixelColor hex x y img =
     (if x < width img \<and> y < height img
      then Inr (img\<lparr>pixels := (pixels img)[width img * y + x := word_of_int hex]\<rparr>)
      else Inl OutOfBounds)"

text \<open>
  Modelled from the spec: \<^verbatim>\<open>scan(x, y, w, h, f)\<close> of Jimp: the callback runs once for every
  pixel coordinate of the rectangle, row after row; the image it mutates is threaded through.
\<close>

definition coords :: "nat \<Rightarrow> nat \<Rightarrow> nat \<Rightarrow> nat \<Rightarrow> (nat \<times> nat) list" where
  "coords x0 y0 w h = concat (map (\<lambda>y. map (\<lambda>x. (x, y)) [x0..<x0 + w]) [y0..<y0 + h])"

fun visit :: "(nat \<times> nat) list \<Rightarrow> (nat \<Rightarrow> nat \<Rightarrow> image \<Rightarrow> error + image) \<Rightarrow> image \<Rightarrow> error + image" where
  "visit [] f img = Inr img"
| "visit ((x, y) # cs) f img =
     (case f x y img of Inl e \<Rightarrow> Inl e | Inr img' \<Rightarrow> visit cs f img')"

definition scan ::
  "nat \<Rightarrow> nat \<Rightarrow> nat \<Rightarrow> nat \<Rightarrow> (nat \<Rightarrow> nat \<Rightarrow> image \<Rightarrow> error + image) \<Rightarrow> image \<Rightarrow> error + image" where
  "scan x0 y0 w h f img = visit (coords x0 y0 w h) f img"

text \<open>
  Modelled from the spec: \<^verbatim>\<open>composite(overlay, offsetX, offsetY)\<close> of Jimp, which is absent
  from the source tree: every overlay pixel is pasted at its coordinate plus the offset,
  replacing the base pixel there; a pixel that lands outside the base is dropped.
\<close>

definition paste :: "image \<Rightarrow> int \<Rightarrow> int \<Rightarrow> nat \<Rightarrow> nat \<Rightarrow> image \<Rightarrow> error + image" where
  "paste overlay offsetX offsetY x y base =
     (let bx = offsetX + int x; by = offsetY + int y in
      if 0 \<le> bx \<and> bx < int (width base) \<and> 0 \<le> by \<and> by < int (height base)
      then (case getPixelColor overlay x y of
              Inl e \<Rightarrow> Inl e
            | Inr c \<Rightarrow> setPixelColor c (nat bx) (nat by) base)
      else Inr base)"

definition composite :: "image \<Rightarrow> image \<Rightarrow> int \<Rightarrow> int \<Rightarrow> error + image" where
  "composite base overlay offsetX offsetY =
     scan 0 0 (width overlay) (height overlay) (paste overlay offsetX offsetY) base"

text \<open>
  Modelled from the spec: \<^verbatim>\<open>hasAlpha()\<close> of Jimp: some pixel's alpha channel, the last of
  the four packed channels, is not fully opaque.
\<close>

definition alpha :: "32 word \<Rightarrow> 32 word" where
  "alpha p = p AND 0xFF"

definition hasAlpha :: "image \<Rightarrow> bool" where
  "hasAlpha img = list_ex (\<lambda>p. alpha p \<noteq> 0xFF) (pixels img)"

section \<open>The adaptive icon\<close>

text \<open>
  \<^verbatim>\<open>
  const imageSize = 1024;
  const iconPadding = 100;
  const iconSize = imageSize - 2 * iconPadding;
  \<close>
\<close>

definition imageSize :: nat where
  "imageSize = 1024"

definition iconPadding :: nat where
  "iconPadding = 100"

definition iconSize :: nat where
  "iconSize = imageSize - 2 * iconPadding"

text \<open>
  The choice between \<^verbatim>\<open>contain\<close> and \<^verbatim>\<open>cover\<close> (lines 180-189):
  \<^verbatim>\<open>
  if (originalIcon.hasAlpha()) {
    originalIconScaleSize = parseFloat(program.scale || '0.9');
    originalIcon.contain({ w: iconSize * originalIconScaleSize, h: iconSize * originalIconScaleSize });
  } else {
    originalIconScaleSize = 1;
    originalIcon.cover({ w: iconSize, h: iconSize });
  }
  const scalePosition = iconSize * (1 - originalIconScaleSize) / 2;
  \<close>
  The resize request is recorded as a value; its sizes are rationals, \<^verbatim>\<open>parseFloat\<close> is a
  parameter, and \<^verbatim>\<open>program.scale\<close> is an optional string (\<^verbatim>\<open>undefined\<close> and the empty
  string are falsy). The last line is modelled further down, in double arithmetic.
\<close>

datatype CompositionPolicy = ShrinkToFit rat rat | FillAndCrop rat rat

definition or_default :: "string option \<Rightarrow> string \<Rightarrow> string" where
  "or_default v d = (case v of None \<Rightarrow> d | Some s \<Rightarrow> (if s = [] then d else s))"

definition selectPolicy ::
  "(string \<Rightarrow> rat) \<Rightarrow> string option \<Rightarrow> image \<Rightarrow> CompositionPolicy \<times> rat" where
  "selectPolicy parseFloat scale originalIcon =
     (if hasAlpha originalIcon
      then (let originalIconScaleSize = parseFloat (or_default scale ''0.9'')
            in (ShrinkToFit (of_nat iconSize * originalIconScaleSize)
                            (of_nat iconSize * originalIconScaleSize),
                originalIconScaleSize))
      else (FillAndCrop (of_nat iconSize) (of_nat iconSize), 1))"

text \<open>
  Line 189 computes \<^verbatim>\<open>iconSize * (1 - originalIconScaleSize) / 2\<close> on JavaScript numbers,
  which are IEEE 754 binary64 values: each operation returns the exact result rounded to the
  nearest double, ties to the even significand. A finite double is modelled by the rational
  it denotes; \<open>None\<close> stands for a result that is not finite (an infinity or NaN).

  \<open>exponent x\<close> is the binary exponent of a non-zero \<open>x\<close>, that is the integer \<open>e\<close> with
  \<open>2^e \<le> |x| < 2^(e+1)\<close>, read off the bit length of the integer part of \<open>|x|\<close> or of
  \<open>1 / |x|\<close>. \<open>quantum x\<close> is the spacing of the doubles around \<open>x\<close>: 52 binary places
  below the exponent, and \<open>2^-1074\<close> throughout the subnormal range. \<open>toDouble\<close> rounds to
  the nearest multiple of the quantum and overflows at \<open>2^1024\<close>.
\<close>

definition exponent :: "rat \<Rightarrow> int" where
  "exponent x =
     (if 1 \<le> \<bar>x\<bar> then bitlen \<lfloor>\<bar>x\<bar>\<rfloor> - 1
      else - bitlen (\<lceil>1 / \<bar>x\<bar>\<rceil> - 1))"

definition roundTiesToEven :: "rat \<Rightarrow> int" where
  "roundTiesToEven m =
     (let n = \<lfloor>m\<rfloor>; f = m - of_int n in
      if f < 1 / 2 then n
      else if 1 / 2 < f then n + 1
      else if even n then n else n + 1)"

definition quantum :: "rat \<Rightarrow> rat" where
  "quantum x = 2 powi (max (exponent x) (- 1022) - 52)"

definition toDouble :: "rat \<Rightarrow> rat option" where
  "toDouble x =
     (if x = 0 then Some 0
      else (let y = of_int (roundTiesToEven (x / quantum x)) * quantum x in
            if \<bar>y\<bar> < 2 ^ 1024 then Some y else None))"

text \<open>The operators \<^verbatim>\<open>-\<close>, \<^verbatim>\<open>*\<close> and \<^verbatim>\<open>/\<close> on finite doubles.\<close>

definition js_sub :: "rat \<Rightarrow> rat \<Rightarrow> rat option" where
  "js_sub a b = toDouble (a - b)"

definition js_mul :: "rat \<Rightarrow> rat \<Rightarrow> rat option" where
  "js_mul a b = toDouble (a * b)"

definition js_div :: "rat \<Rightarrow> rat \<Rightarrow> rat option" where
  "js_div a b = (if b = 0 then None else toDouble (a / b))"

text \<open>
  \<^verbatim>\<open>const scalePosition = iconSize * (1 - originalIconScaleSize) / 2\<close>, first as a function of
  the scale, then on the scale the branch above has chosen.
\<close>

definition scalePositionAt :: "rat \<Rightarrow> rat option" where
  "scalePositionAt originalIconScaleSize =
     Option.bind (js_sub 1 originalIconScaleSize) (\<lambda>d.
     Option.bind (js_mul (of_nat iconSize) d) (\<lambda>p. js_div p 2))"

definition scalePosition :: "(string \<Rightarrow> rat) \<Rightarrow> string option \<Rightarrow> image \<Rightarrow> rat option" where
  "scalePosition parseFloat scale originalIcon =
     scalePositionAt (snd (selectPolicy parseFloat scale originalIcon))"

text \<open>
  The specification's formula for the centring offset, \<open>(iconArea - scaledSize) / 2\<close>, in the
  same arithmetic; \<open>scaledSize\<close> is the size requested from \<^verbatim>\<open>contain\<close>,
  \<^verbatim>\<open>iconSize * originalIconScaleSize\<close> (line 183).
\<close>

definition symmetricPadding :: "rat \<Rightarrow> rat option" where
  "symmetricPadding originalIconScaleSize =
     Option.bind (js_mul (of_nat iconSize) originalIconScaleSize) (\<lambda>scaledSize.
     Option.bind (js_sub (of_nat iconSize) scaledSize) (\<lambda>d. js_div d 2))"

text \<open>Half of the smallest positive double, the rounding error bound in the subnormal range.\<close>

definition halfMin :: rat where
  "halfMin = 1 / 2 ^ 1075"

text \<open>
  The masking pass (lines 196-199):
  \<^verbatim>\<open>
  image.scan(0, 0, imageSize, imageSize, (x, y) => {
    image.setPixelColor((mask.getPixelColor(x, y) & image.getPixelColor(x, y)) >>> 0, x, y);
  });
  \<close>
  \<^verbatim>\<open>&\<close> converts both operands to signed 32-bit integers and yields a signed 32-bit
  integer; \<^verbatim>\<open>>>> 0\<close> converts its left operand to an unsigned 32-bit integer.
\<close>

definition ToInt32 :: "int \<Rightarrow> int" where
  "ToInt32 n = (let k = n mod 2 ^ 32 in if k \<ge> 2 ^ 31 then k - 2 ^ 32 else k)"

definition ToUint32 :: "int \<Rightarrow> int" where
  "ToUint32 n = n mod 2 ^ 32"

definition js_bitand :: "int \<Rightarrow> int \<Rightarrow> int" where
  "js_bitand a b = ToInt32 a AND ToInt32 b"

definition js_ushr :: "int \<Rightarrow> int \<Rightarrow> int" where
  "js_ushr a s = drop_bit (nat (ToUint32 s mod 32)) (ToUint32 a)"

definition maskPixel :: "image \<Rightarrow> nat \<Rightarrow> nat \<Rightarrow> image \<Rightarrow> error + image" where
  "maskPixel maskImg x y img =
     (case getPixelColor maskImg x y of
        Inl e \<Rightarrow> Inl e
      | Inr m \<Rightarrow>
          (case getPixelColor img x y of
             Inl e \<Rightarrow> Inl e
           | Inr c \<Rightarrow> setPixelColor (js_ushr (js_bitand m c) 0) x y img))"

definition applyMask :: "image \<Rightarrow> image \<Rightarrow> error + image" where
  "applyMask maskImg img = scan 0 0 imageSize imageSize (maskPixel maskImg) img"

text \<open>
  Two abbreviations for the proofs about the masking pass: the effect of one step on the pixel
  list, and the whole pass in closed form.
\<close>

definition andAt :: "32 word list \<Rightarrow> nat \<Rightarrow> 32 word list \<Rightarrow> 32 word list" where
  "andAt ms i ps = ps[i := ms ! i AND ps ! i]"

definition masked :: "image \<Rightarrow> image \<Rightarrow> image" where
  "masked maskImg img = img\<lparr>pixels := map (\<lambda>i. pixels maskImg ! i AND pixels img ! i)
                                       [0..<length (pixels img)]\<rparr>"

text \<open>
  Two abbreviations for the proofs about \<open>composite\<close>: the index of the base pixel an
  overlay coordinate lands on, if any, and the effect of one paste on the pixel list.
\<close>

definition pasteTarget :: "image \<Rightarrow> int \<Rightarrow> int \<Rightarrow> nat \<times> nat \<Rightarrow> nat option" where
  "pasteTarget base offsetX offsetY c =
     (let bx = offsetX + int (fst c); by = offsetY + int (snd c) in
      if 0 \<le> bx \<and> bx < int (width base) \<and> 0 \<le> by \<and> by < int (height base)
      then Some (width base * nat by + nat bx) else None)"

definition pasteAt :: "image \<Rightarrow> image \<Rightarrow> int \<Rightarrow> int \<Rightarrow> nat \<times> nat \<Rightarrow> 32 word list \<Rightarrow> 32 word list" where
  "pasteAt base overlay offsetX offsetY c ps =
     (case pasteTarget base offsetX offsetY c of
        None \<Rightarrow> ps
      | Some t \<Rightarrow> ps[t := pixels overlay ! (width overlay * snd c + fst c)])"

text \<open>
  The assembly of the output canvas (line 194):
  \<^verbatim>\<open>new Jimp({ width: imageSize, height: imageSize, color }).composite(resultIcon, iconPadding, iconPadding)\<close>.
\<close>

definition assemble :: "32 word \<Rightarrow> image \<Rightarrow> error + image" where
  "assemble color resultIcon =
     composite (create imageSize imageSize color) resultIcon (int iconPadding) (int iconPadding)"

section \<open>Properties of the converter\<close>

lemma Math_round_quarter: "Math_round (of_nat i / 4) = int ((i + 2) div 4)"
proof -
  have "(of_nat i :: rat) / 4 + 1 / 2 = of_nat (i + 2) / of_nat 4"
    by (simp add: field_simps)
  then have "Math_round (of_nat i / 4) = \<lfloor>(of_nat (i + 2) :: rat) / of_nat 4\<rfloor>"
    by (simp only: Math_round_def)
  also have "\<dots> = int ((i + 2) div 4)"
    by (rule floor_divide_of_nat_eq)
  finally show ?thesis .
qed

lemma sampleIndex_nat:
  "sampleIndex (4 * P) i = of_nat (P * (i mod 4) + (i + 2) div 4)"
  by (simp add: sampleIndex_def Math_round_quarter)

lemma js_index_of_nat:
  "js_index xs (of_nat k) = (if k < length xs then Some (xs ! k) else None)"
  by (simp add: js_index_def)

lemma or_zero_simps: "or_zero None = 0" "or_zero (Some b) = b"
  by (simp_all add: or_zero_def)

lemma fold_update_upt_length:
  "length (fold (\<lambda>i buf. buf[i := f i]) is buf) = length buf"
  by (induction "is" arbitrary: buf) simp_all

lemma fold_update_nth:
  "k < length buf \<Longrightarrow>
   fold (\<lambda>i buf. buf[i := f i]) is buf ! k = (if k \<in> set is then f k else buf ! k)"
proof (induction "is" arbitrary: buf)
  case Nil
  then show ?case by simp
next
  case (Cons j js)
  then show ?case
    by (cases "j = k") simp_all
qed

lemma length_interleave: "length (interleave data) = length data"
  by (simp add: interleave_def fold_update_upt_length)

lemma interleave_nth:
  "i < length data \<Longrightarrow>
   interleave data ! i = or_zero (js_index data (sampleIndex (length data) i))"
  by (simp add: interleave_def fold_update_nth)

lemma interleave_nth_planar:
  assumes "length data = 4 * P" and "i < length data"
  shows "interleave data ! i =
     (if P * (i mod 4) + (i + 2) div 4 < length data
      then data ! (P * (i mod 4) + (i + 2) div 4) else 0)"
proof -
  have "interleave data ! i = or_zero (js_index data (sampleIndex (4 * P) i))"
    using assms by (simp add: interleave_nth)
  also have "\<dots> = or_zero (js_index data (of_nat (P * (i mod 4) + (i + 2) div 4)))"
    by (simp only: sampleIndex_nat)
  also have "\<dots> = (if P * (i mod 4) + (i + 2) div 4 < length data
      then data ! (P * (i mod 4) + (i + 2) div 4) else 0)"
    by (simp only: js_index_of_nat or_zero_simps if_distrib [of or_zero])
  finally show ?thesis .
qed

lemma plane_nth:
  assumes "length data = 4 * P" and "p < 4" and "k < P"
  shows "plane data p ! k = data ! (P * p + k)"
proof -
  have "p * P \<le> 3 * P"
    using assms(2) by (intro mult_le_mono1) simp
  then have "p * P + k < length data"
    using assms(1,3) by linarith
  moreover have "length data div 4 = P"
    using assms(1) by simp
  ultimately have "plane data p ! k = data ! (p * P + k)"
    using assms(3) by (simp add: plane_def)
  then show ?thesis
    by (simp add: mult.commute)
qed

lemma round_offset: "nat (Math_round (of_nat i / 4)) = i div 4 + (if 2 \<le> i mod 4 then 1 else 0)"
  unfolding Math_round_quarter by (simp; presburger)

text \<open>
  Claim C1. For a planar buffer of four planes of length \<open>P\<close>, output byte \<open>i\<close> of the
  converter is the sample of plane \<open>i mod 4\<close> at the offset \<open>Math.round(i / 4)\<close>, for every
  index whose rounded offset lies inside the plane (the two indices where it does not are the
  subject of claim C2). The rounded offset is \<open>i div 4\<close> plus one when \<open>i mod 4\<close> is 2 or
  3, and the floor mapping \<open>planes[i mod 4][i div 4]\<close> is not what the converter computes:
  some buffer and in-range index give a different byte.
\<close>

theorem decode_reads_rounded_offset:
  assumes "length data = 4 * P" and "i < length data"
    and "nat (Math_round (of_nat i / 4)) < P"
  shows "snd (snd (decode (w, h, data))) ! i
           = plane data (i mod 4) ! nat (Math_round (of_nat i / 4))
       \<and> nat (Math_round (of_nat i / 4)) = i div 4 + (if 2 \<le> i mod 4 then 1 else 0)
       \<and> (\<exists>d j. length d = 4 * (length d div 4) \<and> j < length d
                \<and> nat (Math_round (of_nat j / 4)) < length d div 4
                \<and> snd (snd (decode (w, h, d))) ! j \<noteq> plane d (j mod 4) ! (j div 4))"
proof (intro conjI)
  let ?k = "nat (Math_round (of_nat i / 4))"
  have k: "?k = (i + 2) div 4"
    by (simp add: Math_round_quarter)
  have "P * (i mod 4) + ?k < length data"
  proof -
    have "P * (i mod 4) \<le> P * 3"
      by (intro mult_le_mono2) simp
    then show ?thesis using assms(1,3) by linarith
  qed
  then have "interleave data ! i = data ! (P * (i mod 4) + ?k)"
    using interleave_nth_planar [OF assms(1,2)] by (simp add: k)
  also have "\<dots> = plane data (i mod 4) ! ?k"
    using assms(1,3) by (simp add: plane_nth)
  finally show "snd (snd (decode (w, h, data))) ! i = plane data (i mod 4) ! ?k"
    by (simp add: decode_def)
next
  show "nat (Math_round (of_nat i / 4)) = i div 4 + (if 2 \<le> i mod 4 then 1 else 0)"
    by (rule round_offset)
next
  let ?d = "[1, 2, 3, 4, 5, 6, 7, 8] :: byte list"
  have "interleave ?d ! 2 = 6"
    using interleave_nth_planar [of ?d 2 2] by simp
  moreover have "plane ?d (2 mod 4) ! (2 div 4) = 5"
    by (simp add: plane_def)
  ultimately have "snd (snd (decode (w, h, ?d))) ! 2 \<noteq> plane ?d (2 mod 4) ! (2 div 4)"
    by (simp add: decode_def)
  moreover have "nat (Math_round (of_nat 2 / 4)) < length ?d div 4"
    unfolding Math_round_quarter by simp
  ultimately show "\<exists>d j. length d = 4 * (length d div 4) \<and> j < length d
                \<and> nat (Math_round (of_nat j / 4)) < length d div 4
                \<and> snd (snd (decode (w, h, d))) ! j \<noteq> plane d (j mod 4) ! (j div 4)"
    by (intro exI [of _ ?d] exI [of _ 2]) simp
qed

theorem decode_reads_rounded_offset_witness:
  "length [1, 2, 3, 4, 5, 6, 7, 8 :: byte] = 4 * 2 \<and> 2 < length [1, 2, 3, 4, 5, 6, 7, 8 :: byte]
   \<and> nat (Math_round (of_nat 2 / 4)) < 2
   \<and> snd (snd (decode (1, 2, [1, 2, 3, 4, 5, 6, 7, 8]))) ! 2 = 6"
  using decode_reads_rounded_offset [of "[1, 2, 3, 4, 5, 6, 7, 8]" 2 2 1 2]
  by (simp add: Math_round_def plane_def)

text \<open>
  Claim C2 as stated fails: in a buffer of four one-byte planes, output index 2 has plane 2 and
  rounded offset 1, which is outside the plane, and the converter writes the sample of
  plane 3 (the 7), not 0.
\<close>

theorem decode_plane_overrun_counterexample:
  "length [0, 0, 0, 7 :: byte] div 4 \<le> nat (Math_round (of_nat 2 / 4))
   \<and> snd (snd (decode (1, 1, [0, 0, 0, 7]))) ! 2 = 7
   \<and> plane [0, 0, 0, 7] 3 = [7]"
  using interleave_nth_planar [of "[0, 0, 0, 7]" 1 2]
  by (simp add: Math_round_def decode_def plane_def)

lemma overrun_last_two:
  assumes "i < 4 * P" and "P \<le> (i + 2) div 4"
  shows "\<exists>Q. P = Suc Q \<and> (i = 4 * Q + 3 \<or> i = 4 * Q + 2)"
proof -
  have "P * 4 \<le> i + 2"
    using assms(2) by (simp add: less_eq_div_iff_mult_less_eq)
  moreover obtain Q where Q: "P = Suc Q"
    using assms(1) by (cases P) simp_all
  ultimately have "i = 4 * Q + 3 \<or> i = 4 * Q + 2"
    using assms(1) by linarith
  with Q show ?thesis by blast
qed

lemma quarter_arith:
  "(4 * Q + 3) mod 4 = (3::nat)" "(4 * Q + 3 + 2) div 4 = Suc Q"
  "(4 * Q + 2) mod 4 = (2::nat)" "(4 * Q + 2 + 2) div 4 = Suc Q"
proof -
  have "(4 * Q + 3) mod 4 = 3 mod (4::nat)" "(4 * Q + 2) mod 4 = 2 mod (4::nat)"
    by (simp_all only: mod_mult_self4)
  then show "(4 * Q + 3) mod 4 = (3::nat)" "(4 * Q + 2) mod 4 = (2::nat)"
    by simp_all
  have "(4 * Q + 5) div 4 = Suc Q" "(4 * Q + 4) div 4 = Suc Q"
    by simp_all
  then show "(4 * Q + 3 + 2) div 4 = Suc Q" "(4 * Q + 2 + 2) div 4 = Suc Q"
    by (simp_all add: add.assoc)
qed

text \<open>
  Claim C2, amended. The rounded offset leaves its plane at the last two output indices
  only. At the last index (plane 3) the flat position is past the end of the buffer and the
  converter writes 0; at the index before it (plane 2) the flat position is the first
  sample of plane 3, and that sample is written.
\<close>

theorem decode_plane_overrun:
  assumes "length data = 4 * P" and "i < length data"
    and "P \<le> nat (Math_round (of_nat i / 4))"
  shows "(i = length data - 1 \<and> snd (snd (decode (w, h, data))) ! i = 0)
       \<or> (i = length data - 2 \<and> snd (snd (decode (w, h, data))) ! i = plane data 3 ! 0)"
proof -
  have "P \<le> (i + 2) div 4" "i < 4 * P"
    using assms by (simp_all add: Math_round_quarter)
  then obtain Q where Q: "P = Suc Q" and i: "i = 4 * Q + 3 \<or> i = 4 * Q + 2"
    using overrun_last_two by blast
  note nth = interleave_nth_planar [OF assms(1,2)]
  from i show ?thesis
  proof
    assume i: "i = 4 * Q + 3"
    have "interleave data ! i = (if P * 3 + P < length data then data ! (P * 3 + P) else 0)"
      using nth unfolding i quarter_arith Q .
    then have "interleave data ! i = 0"
      using assms(1) by simp
    moreover have "i = length data - 1"
      using i assms(1) Q by simp
    ultimately show ?thesis by (simp add: decode_def)
  next
    assume i: "i = 4 * Q + 2"
    have "interleave data ! i = (if P * 2 + P < length data then data ! (P * 2 + P) else 0)"
      using nth unfolding i quarter_arith Q .
    moreover have "P * 2 + P = P * 3 + 0" "P * 3 + 0 < length data"
      using assms(1) Q by simp_all
    ultimately have "interleave data ! i = data ! (P * 3 + 0)"
      by (simp only: if_True)
    also have "\<dots> = plane data 3 ! 0"
      using plane_nth [OF assms(1), of 3 0] Q by simp
    finally have "interleave data ! i = plane data 3 ! 0" .
    moreover have "i = length data - 2"
      using i assms(1) Q by simp
    ultimately show ?thesis by (simp add: decode_def)
  qed
qed

theorem decode_plane_overrun_witness:
  "length [1, 2, 3, 4, 5, 6, 7, 8 :: byte] = 4 * 2 \<and> 7 < length [1, 2, 3, 4, 5, 6, 7, 8 :: byte]
   \<and> 2 \<le> nat (Math_round (of_nat 7 / 4))
   \<and> snd (snd (decode (1, 2, [1, 2, 3, 4, 5, 6, 7, 8]))) ! 7 = 0"
  using decode_plane_overrun [of "[1, 2, 3, 4, 5, 6, 7, 8]" 2 7 1 2]
  unfolding Math_round_quarter by simp

section \<open>Properties of the container selection\<close>

lemma length_insert_by: "length (insert_by cmp x ys) = Suc (length ys)"
  by (induction ys) simp_all

lemma length_js_sort: "length (js_sort cmp xs) = length xs"
  by (induction xs) (simp_all add: js_sort_def length_insert_by)

lemma js_sort_Cons: "js_sort cmp (x # xs) = insert_by cmp x (js_sort cmp xs)"
  by (simp add: js_sort_def)

lemma js_sort_Nil_iff: "js_sort cmp xs = [] \<longleftrightarrow> xs = []"
  using length_js_sort [of cmp xs] by (metis length_0_conv)

lemma candidates_Cons:
  "map snd (filter (\<lambda>(k, v). isImageType k) (e # es)) =
     (if isImageType (fst e) then snd e # map snd (filter (\<lambda>(k, v). isImageType k) es)
      else map snd (filter (\<lambda>(k, v). isImageType k) es))"
  by (cases e) simp

lemma candidates_Nil_iff:
  "map snd (filter (\<lambda>(k, v). isImageType k) es) = [] \<longleftrightarrow> (\<forall>e\<in>set es. \<not> isImageType (fst e))"
  by (induction es) (auto simp: candidates_Cons)

lemma sorted_head_first_longest:
  "js_sort byLengthDesc (map snd (filter (\<lambda>(k, v). isImageType k) es)) = v # rest \<Longrightarrow>
   \<exists>pre k post. es = pre @ (k, v) # post \<and> isImageType k
     \<and> (\<forall>e\<in>set pre. isImageType (fst e) \<longrightarrow> length (snd e) < length v)
     \<and> (\<forall>e\<in>set post. isImageType (fst e) \<longrightarrow> length (snd e) \<le> length v)"
proof (induction es arbitrary: v rest)
  case Nil
  then show ?case by (simp add: js_sort_def)
next
  case (Cons e es)
  let ?cands = "map snd (filter (\<lambda>(k, v). isImageType k) es)"
  show ?case
  proof (cases "isImageType (fst e)")
    case False
    with Cons.prems have "js_sort byLengthDesc ?cands = v # rest"
      unfolding candidates_Cons by simp
    from Cons.IH [OF this] obtain pre k post where
      d: "es = pre @ (k, v) # post" "isImageType k"
         "\<forall>e\<in>set pre. isImageType (fst e) \<longrightarrow> length (snd e) < length v"
         "\<forall>e\<in>set post. isImageType (fst e) \<longrightarrow> length (snd e) \<le> length v"
      by blast
    have "e # es = (e # pre) @ (k, v) # post"
      using d(1) by simp
    moreover have "\<forall>e'\<in>set (e # pre). isImageType (fst e') \<longrightarrow> length (snd e') < length v"
      using d(3) False by simp
    ultimately show ?thesis
      using d(2,4) by blast
  next
    case True
    then have ins: "insert_by byLengthDesc (snd e) (js_sort byLengthDesc ?cands) = v # rest"
      using Cons.prems unfolding candidates_Cons by (simp add: js_sort_Cons)
    show ?thesis
    proof (cases "js_sort byLengthDesc ?cands")
      case Nil
      then have "\<forall>e'\<in>set es. \<not> isImageType (fst e')"
        unfolding js_sort_Nil_iff candidates_Nil_iff .
      moreover have "v = snd e"
        using ins Nil by simp
      ultimately have "e # es = [] @ (fst e, v) # es \<and> isImageType (fst e)
          \<and> (\<forall>e'\<in>set es. isImageType (fst e') \<longrightarrow> length (snd e') \<le> length v)"
        using True by simp
      then show ?thesis
        by (metis empty_iff empty_set)
    next
      case (Cons v' rest')
      from Cons.IH [OF this] obtain pre k post where
        d: "es = pre @ (k, v') # post" "isImageType k"
           "\<forall>e\<in>set pre. isImageType (fst e) \<longrightarrow> length (snd e) < length v'"
           "\<forall>e\<in>set post. isImageType (fst e) \<longrightarrow> length (snd e) \<le> length v'"
        by blast
      show ?thesis
      proof (cases "length v' \<le> length (snd e)")
        case le: True
        then have "v = snd e"
          using ins Cons by (simp add: byLengthDesc_def)
        moreover have "\<forall>e'\<in>set es. isImageType (fst e') \<longrightarrow> length (snd e') \<le> length (snd e)"
          using d le by fastforce
        ultimately have "e # es = [] @ (fst e, v) # es \<and> isImageType (fst e)
          \<and> (\<forall>e'\<in>set es. isImageType (fst e') \<longrightarrow> length (snd e') \<le> length v)"
          using True by simp
        then show ?thesis
          by (metis empty_iff empty_set)
      next
        case gt: False
        then have "v = v'"
          using ins Cons by (simp add: byLengthDesc_def)
        moreover have "e # es = (e # pre) @ (k, v') # post"
          using d(1) by simp
        moreover have "\<forall>e'\<in>set (e # pre). isImageType (fst e') \<longrightarrow> length (snd e') < length v'"
          using d(3) gt by simp
        ultimately show ?thesis
          using d(2,4) by blast
      qed
    qed
  qed
qed

text \<open>
  Claim C3. When at least one entry carries an image tag, the selection is an image-tagged
  entry whose payload is at least as long as that of every image-tagged entry and strictly
  longer than that of every image-tagged entry before it: the first of the longest ones.
  In particular, of two image entries of 100 and 500 bytes the 500-byte one is selected,
  whichever comes first.
\<close>

theorem subIconBuffer_first_longest:
  assumes "\<exists>e\<in>set entries. isImageType (fst e)"
  shows "(\<exists>pre k v post. subIconBuffer isImageType entries = Some v
           \<and> entries = pre @ (k, v) # post \<and> isImageType k
           \<and> (\<forall>e\<in>set pre. isImageType (fst e) \<longrightarrow> length (snd e) < length v)
           \<and> (\<forall>e\<in>set post. isImageType (fst e) \<longrightarrow> length (snd e) \<le> length v))
       \<and> (\<forall>ka kb a b. isImageType ka \<and> isImageType kb \<and> length a = 100 \<and> length b = 500 \<longrightarrow>
             subIconBuffer isImageType [(ka, a), (kb, b)] = Some b
           \<and> subIconBuffer isImageType [(kb, b), (ka, a)] = Some b)"
proof (intro conjI allI impI)
  let ?cands = "map snd (filter (\<lambda>(k, v). isImageType k) entries)"
  have "js_sort byLengthDesc ?cands \<noteq> []"
    using assms unfolding js_sort_Nil_iff candidates_Nil_iff by blast
  then obtain v rest where s: "js_sort byLengthDesc ?cands = v # rest"
    by (cases "js_sort byLengthDesc ?cands") simp_all
  then have "subIconBuffer isImageType entries = Some v"
    by (simp add: subIconBuffer_def)
  with sorted_head_first_longest [OF s]
  show "\<exists>pre k v post. subIconBuffer isImageType entries = Some v
           \<and> entries = pre @ (k, v) # post \<and> isImageType k
           \<and> (\<forall>e\<in>set pre. isImageType (fst e) \<longrightarrow> length (snd e) < length v)
           \<and> (\<forall>e\<in>set post. isImageType (fst e) \<longrightarrow> length (snd e) \<le> length v)"
    by blast
next
  fix ka kb and a b :: buffer
  assume h: "isImageType ka \<and> isImageType kb \<and> length a = 100 \<and> length b = 500"
  then show "subIconBuffer isImageType [(ka, a), (kb, b)] = Some b"
    by (simp add: subIconBuffer_def js_sort_def byLengthDesc_def)
  from h show "subIconBuffer isImageType [(kb, b), (ka, a)] = Some b"
    by (simp add: subIconBuffer_def js_sort_def byLengthDesc_def)
qed

theorem subIconBuffer_first_longest_witness:
  "(\<exists>e\<in>set [(''TOC '', [0, 0 :: byte]), (''ic07'', [1])]. fst e \<noteq> ''TOC '')
   \<and> subIconBuffer (\<lambda>k. k \<noteq> ''TOC '') [(''ic07'', replicate 100 1), (''ic08'', replicate 500 2)]
        = Some (replicate 500 2)
   \<and> subIconBuffer (\<lambda>k. k \<noteq> ''TOC '') [(''ic08'', replicate 500 2), (''ic07'', replicate 100 1)]
        = Some (replicate 500 2)"
proof -
  have h: "\<exists>e\<in>set [(''TOC '', [0, 0 :: byte]), (''ic07'', [1])]. fst e \<noteq> ''TOC ''"
    by simp
  from subIconBuffer_first_longest [of _ "\<lambda>k. k \<noteq> ''TOC ''", OF h]
  have "\<forall>ka kb a b. ka \<noteq> ''TOC '' \<and> kb \<noteq> ''TOC '' \<and> length a = 100 \<and> length b = 500 \<longrightarrow>
          subIconBuffer (\<lambda>k. k \<noteq> ''TOC '') [(ka, a), (kb, b)] = Some b
        \<and> subIconBuffer (\<lambda>k. k \<noteq> ''TOC '') [(kb, b), (ka, a)] = Some b"
    by (rule conjunct2)
  then have "subIconBuffer (\<lambda>k. k \<noteq> ''TOC '') [(''ic07'', replicate 100 1), (''ic08'', replicate 500 2)]
        = Some (replicate 500 2)
   \<and> subIconBuffer (\<lambda>k. k \<noteq> ''TOC '') [(''ic08'', replicate 500 2), (''ic07'', replicate 100 1)]
        = Some (replicate 500 2)"
    by simp
  with h show ?thesis by (intro conjI) simp_all
qed

text \<open>
  Claim C9. When the parser throws, or the container has no image-tagged entry, the bytes of
  the icon file themselves are handed to the image reader, and a readable file then yields its
  image; when the reader fails on the chosen bytes, the process exits with status 1.
\<close>

theorem fallback_and_abort:
  "(parse iconBuffer = Inl e \<longrightarrow>
      chooseIconBuffer parse isImageType iconBuffer = iconBuffer)
   \<and> (parse iconBuffer = Inr entries \<and> (\<forall>e\<in>set entries. \<not> isImageType (fst e)) \<longrightarrow>
      chooseIconBuffer parse isImageType iconBuffer = iconBuffer)
   \<and> (chooseIconBuffer parse isImageType iconBuffer = iconBuffer \<and> read iconBuffer = Inr icon \<longrightarrow>
      readOriginalIcon parse isImageType read iconBuffer = Inr icon)
   \<and> (read (chooseIconBuffer parse isImageType iconBuffer) = Inl e' \<longrightarrow>
      readOriginalIcon parse isImageType read iconBuffer = Inl (ProcessExit 1))"
proof (intro conjI impI)
  assume "parse iconBuffer = Inl e"
  then show "chooseIconBuffer parse isImageType iconBuffer = iconBuffer"
    by (simp add: chooseIconBuffer_def)
next
  assume h: "parse iconBuffer = Inr entries \<and> (\<forall>e\<in>set entries. \<not> isImageType (fst e))"
  then have "map snd (filter (\<lambda>(k, v). isImageType k) entries) = []"
    unfolding candidates_Nil_iff by simp
  then have "subIconBuffer isImageType entries = None"
    by (simp add: subIconBuffer_def js_sort_def)
  with h show "chooseIconBuffer parse isImageType iconBuffer = iconBuffer"
    by (simp add: chooseIconBuffer_def)
next
  assume "chooseIconBuffer parse isImageType iconBuffer = iconBuffer \<and> read iconBuffer = Inr icon"
  then show "readOriginalIcon parse isImageType read iconBuffer = Inr icon"
    by (simp add: readOriginalIcon_def)
next
  assume "read (chooseIconBuffer parse isImageType iconBuffer) = Inl e'"
  then show "readOriginalIcon parse isImageType read iconBuffer = Inl (ProcessExit 1)"
    by (simp add: readOriginalIcon_def)
qed

theorem fallback_and_abort_witness:
  "chooseIconBuffer (\<lambda>b. Inl ContainerParseError) (\<lambda>k. True) [1, 2, 3] = [1, 2, 3]
   \<and> chooseIconBuffer (\<lambda>b. Inr [(''TOC '', [9])]) (\<lambda>k. k \<noteq> ''TOC '') [1, 2, 3] = [1, 2, 3]
   \<and> readOriginalIcon (\<lambda>b. Inl ContainerParseError) (\<lambda>k. True) (\<lambda>b. Inr (length b)) [1, 2, 3] = Inr 3
   \<and> readOriginalIcon (\<lambda>b. Inl ContainerParseError) (\<lambda>k. True)
        (\<lambda>b. (Inl DecodeError :: error + nat)) [1, 2, 3] = Inl (ProcessExit 1)"
  using
    fallback_and_abort [of "\<lambda>b. Inl ContainerParseError" "[1, 2, 3]" ContainerParseError
      "\<lambda>k. True" "[]" "\<lambda>b. Inr (length b)" 3 DecodeError]
    fallback_and_abort [of "\<lambda>b. Inr [(''TOC '', [9])]" "[1, 2, 3]" ContainerParseError
      "\<lambda>k. k \<noteq> ''TOC ''" "[(''TOC '', [9])]" "\<lambda>b. Inr (length b)" 3 DecodeError]
    fallback_and_abort [of "\<lambda>b. Inl ContainerParseError" "[1, 2, 3]" ContainerParseError
      "\<lambda>k. True" "[]" "\<lambda>b. (Inl DecodeError :: error + nat)" 3 DecodeError]
  by simp

section \<open>Properties of the masking pass\<close>

lemma word_of_ToInt32: "(word_of_int (ToInt32 n) :: 32 word) = word_of_int n"
proof -
  have "take_bit 32 (ToInt32 n) = take_bit 32 n"
    by (simp add: ToInt32_def Let_def take_bit_eq_mod mod_diff_right_eq [symmetric, of _ "2 ^ 32"])
  then show ?thesis
    by (simp add: word_of_int_eq_iff)
qed

lemma ToUint32_uint: "ToUint32 n = uint (word_of_int n :: 32 word)"
  by (simp add: ToUint32_def uint_word_of_int_eq take_bit_eq_mod)

lemma js_ushr_0: "js_ushr a 0 = ToUint32 a"
  by (simp add: js_ushr_def ToUint32_def)

lemma js_mask_expr:
  "js_ushr (js_bitand (uint (m :: 32 word)) (uint (c :: 32 word))) 0 = uint (m AND c)"
proof -
  have "(word_of_int (js_bitand (uint m) (uint c)) :: 32 word) =
          word_of_int (ToInt32 (uint m)) AND word_of_int (ToInt32 (uint c))"
    by (simp add: js_bitand_def of_int_and_eq)
  also have "\<dots> = m AND c"
    by (simp only: word_of_ToInt32 word_of_int_uint)
  finally show ?thesis
    by (simp only: js_ushr_0 ToUint32_uint)
qed


text \<open>Row-major enumeration: the coordinates of \<open>scan 0 0 w h\<close> visit the indices \<open>0..<w*h\<close> in order.\<close>

lemma coords_index:
  "map (\<lambda>(x, y). w * y + x) (coords 0 0 w h) = [0..<w * h]"
proof (induction h)
  case 0
  show ?case by (simp add: coords_def)
next
  case (Suc h)
  have "map (\<lambda>(x, y). w * y + x) (coords 0 0 w (Suc h)) =
          map (\<lambda>(x, y). w * y + x) (coords 0 0 w h) @ map (\<lambda>x. w * h + x) [0..<w]"
    by (simp add: coords_def comp_def)
  also have "map (\<lambda>x. w * h + x) [0..<w] = [w * h..<w * h + w]"
    by (simp add: map_add_upt add.commute)
  finally have "map (\<lambda>(x, y). w * y + x) (coords 0 0 w (Suc h)) =
          [0..<w * h] @ [w * h..<w * h + w]"
    by (simp only: Suc.IH)
  moreover have "[0..<w * h + w] = [0..<w * h] @ [w * h..<w * h + w]"
    by (rule upt_add_eq_append) simp
  moreover have "w * Suc h = w * h + w"
    by simp
  ultimately show ?case
    by (simp only:)
qed

lemma coords_bounds:
  "(x, y) \<in> set (coords 0 0 w h) \<Longrightarrow> x < w \<and> y < h"
  by (auto simp: coords_def)

lemma maskPixel_step:
  assumes "x < width img" and "y < height img"
    and "width maskImg = width img" and "height maskImg = height img"
  shows "maskPixel maskImg x y img =
           Inr (img\<lparr>pixels := andAt (pixels maskImg) (width img * y + x) (pixels img)\<rparr>)"
  using assms by (simp add: maskPixel_def getPixelColor_def setPixelColor_def js_mask_expr andAt_def)

lemma visit_maskPixel:
  assumes "\<forall>c\<in>set cs. fst c < width img \<and> snd c < height img"
    and "width maskImg = width img" and "height maskImg = height img"
  shows "visit cs (maskPixel maskImg) img =
           Inr (img\<lparr>pixels := fold (andAt (pixels maskImg))
                                (map (\<lambda>(x, y). width img * y + x) cs) (pixels img)\<rparr>)"
  using assms
proof (induction cs arbitrary: img)
  case Nil
  show ?case by simp
next
  case (Cons c cs)
  obtain x y where c: "c = (x, y)" by (cases c)
  let ?img' = "img\<lparr>pixels := andAt (pixels maskImg) (width img * y + x) (pixels img)\<rparr>"
  have step: "maskPixel maskImg x y img = Inr ?img'"
    using Cons.prems c by (intro maskPixel_step) simp_all
  have "visit cs (maskPixel maskImg) ?img' =
          Inr (?img'\<lparr>pixels := fold (andAt (pixels maskImg))
                 (map (\<lambda>(x, y). width ?img' * y + x) cs) (pixels ?img')\<rparr>)"
    using Cons.prems by (intro Cons.IH) simp_all
  then show ?case
    by (simp add: c step)
qed

lemma length_andAt: "length (andAt ms i ps) = length ps"
  by (simp add: andAt_def)

lemma andAt_nth:
  "k < length ps \<Longrightarrow> andAt ms i ps ! k = (if i = k then ms ! k AND ps ! k else ps ! k)"
  by (simp add: andAt_def)

lemma fold_andAt_length: "length (fold (andAt ms) is ps) = length ps"
  by (induction "is" arbitrary: ps) (simp_all add: length_andAt)

lemma fold_andAt_nth:
  "distinct is \<Longrightarrow> k < length ps \<Longrightarrow>
   fold (andAt ms) is ps ! k = (if k \<in> set is then ms ! k AND ps ! k else ps ! k)"
proof (induction "is" arbitrary: ps)
  case Nil
  show ?case by simp
next
  case (Cons i "is")
  then have "fold (andAt ms) is (andAt ms i ps) ! k =
          (if k \<in> set is then ms ! k AND andAt ms i ps ! k else andAt ms i ps ! k)"
    by (intro Cons.IH) (simp_all add: length_andAt)
  then show ?case
    using Cons.prems by (cases "i = k") (auto simp: andAt_nth)
qed

lemma applyMask_masked:
  assumes "wf_image img" and "width img = imageSize" and "height img = imageSize"
    and "width maskImg = imageSize" and "height maskImg = imageSize"
  shows "applyMask maskImg img = Inr (masked maskImg img)"
proof -
  let ?n = "length (pixels img)"
  have n: "?n = imageSize * imageSize"
    using assms(1-3) by (simp add: wf_image_def)
  have "\<forall>c\<in>set (coords 0 0 imageSize imageSize). fst c < width img \<and> snd c < height img"
    using assms(2,3) coords_bounds by fastforce
  then have "applyMask maskImg img =
      Inr (img\<lparr>pixels := fold (andAt (pixels maskImg))
             (map (\<lambda>(x, y). width img * y + x) (coords 0 0 imageSize imageSize)) (pixels img)\<rparr>)"
    unfolding applyMask_def scan_def using assms(2-5) by (intro visit_maskPixel) simp_all
  also have "map (\<lambda>(x, y). width img * y + x) (coords 0 0 imageSize imageSize) = [0..<?n]"
    by (simp only: assms(2) coords_index n)
  also have "fold (andAt (pixels maskImg)) [0..<?n] (pixels img) =
      map (\<lambda>i. pixels maskImg ! i AND pixels img ! i) [0..<?n]"
    by (rule nth_equalityI) (simp_all add: fold_andAt_length fold_andAt_nth)
  finally show ?thesis
    by (simp only: masked_def)
qed


lemma masked_simps:
  "width (masked maskImg img) = width img"
  "height (masked maskImg img) = height img"
  "length (pixels (masked maskImg img)) = length (pixels img)"
  "wf_image (masked maskImg img) = wf_image img"
  by (simp_all add: masked_def wf_image_def)

lemma masked_nth:
  "i < length (pixels img) \<Longrightarrow>
   pixels (masked maskImg img) ! i = pixels maskImg ! i AND pixels img ! i"
  by (simp add: masked_def)

lemma masked_idem: "masked maskImg (masked maskImg img) = masked maskImg img"
proof -
  have "pixels (masked maskImg (masked maskImg img)) = pixels (masked maskImg img)"
    by (rule nth_equalityI) (simp_all add: masked_simps masked_nth)
  then show ?thesis
    by (simp add: masked_def)
qed

lemma pixel_index_bound:
  assumes "wf_image img" and "x < width img" and "y < height img"
  shows "width img * y + x < length (pixels img)"
proof -
  have "width img * y + x < width img * y + width img"
    using assms(2) by simp
  also have "\<dots> = width img * Suc y"
    by simp
  also have "\<dots> \<le> width img * height img"
    using assms(3) by (intro mult_le_mono2) simp
  finally show ?thesis
    using assms(1) by (simp add: wf_image_def)
qed

lemma getPixelColor_masked:
  assumes "wf_image img" and "x < width img" and "y < height img"
    and "width maskImg = width img" and "height maskImg = height img"
  shows "getPixelColor (masked maskImg img) x y =
           Inr (uint (pixels maskImg ! (width img * y + x) AND pixels img ! (width img * y + x)))"
  using assms pixel_index_bound [OF assms(1-3)]
  by (simp add: getPixelColor_def masked_simps masked_nth)

text \<open>
  Claim C4. After the masking pass over a canvas and a mask of the output size, the packed
  value of every pixel \<open>(x, y)\<close> is the bitwise AND of the mask's packed value and the
  canvas's packed value at \<open>(x, y)\<close>, and the pass does not fail.
\<close>

theorem applyMask_pixel_and:
  assumes "wf_image img" and "width img = imageSize" and "height img = imageSize"
    and "width maskImg = imageSize" and "height maskImg = imageSize"
    and "x < imageSize" and "y < imageSize"
  shows "\<exists>out m c. applyMask maskImg img = Inr out
           \<and> getPixelColor maskImg x y = Inr m \<and> getPixelColor img x y = Inr c
           \<and> getPixelColor out x y = Inr (m AND c)"
proof -
  let ?i = "width img * y + x"
  have "applyMask maskImg img = Inr (masked maskImg img)"
    using assms(1-5) by (rule applyMask_masked)
  moreover have "getPixelColor maskImg x y = Inr (uint (pixels maskImg ! ?i))"
    using assms by (simp add: getPixelColor_def)
  moreover have "getPixelColor img x y = Inr (uint (pixels img ! ?i))"
    using assms by (simp add: getPixelColor_def)
  moreover have "getPixelColor (masked maskImg img) x y =
      Inr (uint (pixels maskImg ! ?i) AND uint (pixels img ! ?i))"
    using assms by (simp add: getPixelColor_masked uint_and)
  ultimately show ?thesis by blast
qed

text \<open>
  Claim C5. Masking is idempotent: a second pass with the same mask returns the image the
  first pass produced. This holds for every mask, so in particular for a binary stencil.
\<close>

theorem applyMask_idempotent:
  assumes "wf_image img" and "width img = imageSize" and "height img = imageSize"
    and "width maskImg = imageSize" and "height maskImg = imageSize"
  shows "\<exists>out. applyMask maskImg img = Inr out \<and> applyMask maskImg out = Inr out"
proof -
  have "applyMask maskImg img = Inr (masked maskImg img)"
    using assms by (rule applyMask_masked)
  moreover have "applyMask maskImg (masked maskImg img) = Inr (masked maskImg (masked maskImg img))"
    using assms by (intro applyMask_masked) (simp_all add: masked_simps)
  ultimately show ?thesis
    by (simp add: masked_idem)
qed

text \<open>
  Claim C10. After the masking pass every pixel value \<open>p\<close> has its set bits inside the
  mask's pixel value at the same coordinate (\<open>p AND m = p\<close>) and is an unsigned 32-bit
  number, for every canvas and every mask of the output size.
\<close>

theorem applyMask_within_mask:
  assumes "wf_image img" and "width img = imageSize" and "height img = imageSize"
    and "width maskImg = imageSize" and "height maskImg = imageSize"
    and "x < imageSize" and "y < imageSize"
  shows "\<exists>out p m. applyMask maskImg img = Inr out
           \<and> getPixelColor out x y = Inr p \<and> getPixelColor maskImg x y = Inr m
           \<and> p AND m = p \<and> 0 \<le> p \<and> p < 2 ^ 32"
proof -
  let ?i = "width img * y + x"
  let ?p = "pixels maskImg ! ?i AND pixels img ! ?i"
  have "applyMask maskImg img = Inr (masked maskImg img)"
    using assms(1-5) by (rule applyMask_masked)
  moreover have "getPixelColor (masked maskImg img) x y = Inr (uint ?p)"
    using assms by (simp add: getPixelColor_masked)
  moreover have "getPixelColor maskImg x y = Inr (uint (pixels maskImg ! ?i))"
    using assms by (simp add: getPixelColor_def)
  moreover have "uint ?p AND uint (pixels maskImg ! ?i) = uint ?p"
    by (simp add: uint_and [symmetric] ac_simps)
  moreover have "0 \<le> uint ?p" "uint ?p < 2 ^ 32"
    using uint_lt2p [of ?p] by simp_all
  ultimately show ?thesis by blast
qed

lemma witness_canvas:
  "wf_image (create imageSize imageSize c)"
  "width (create imageSize imageSize c) = imageSize"
  "height (create imageSize imageSize c) = imageSize"
  by (simp_all add: create_def wf_image_def)

lemma getPixelColor_create:
  "x < w \<Longrightarrow> y < h \<Longrightarrow> getPixelColor (create w h c) x y = Inr (uint c)"
  using pixel_index_bound [of "create w h c" x y]
  by (simp add: getPixelColor_def create_def wf_image_def)

theorem applyMask_pixel_and_witness:
  "\<exists>out. applyMask (create imageSize imageSize 0xFF00FFFF) (create imageSize imageSize 0x12345678) = Inr out
     \<and> getPixelColor out 3 5 = Inr 0x12005678"
proof -
  have b: "3 < imageSize" "5 < imageSize"
    by (simp_all add: imageSize_def)
  from applyMask_pixel_and [OF witness_canvas witness_canvas(2,3) b,
      of "0xFF00FFFF" "0x12345678"]
  show ?thesis
    by (simp add: getPixelColor_create b) 
qed


theorem applyMask_idempotent_witness:
  "\<exists>out. applyMask (create imageSize imageSize 0xFFFFFFFF) (create imageSize imageSize 0xFF0000FF) = Inr out
     \<and> applyMask (create imageSize imageSize 0xFFFFFFFF) out = Inr out"
  using applyMask_idempotent [OF witness_canvas witness_canvas(2,3), of "0xFFFFFFFF" "0xFF0000FF"]
  by simp

theorem applyMask_within_mask_witness:
  "\<exists>out p. applyMask (create imageSize imageSize 0x0F0F0F0F) (create imageSize imageSize 0xFFFFFFFF) = Inr out
     \<and> getPixelColor out 1023 0 = Inr p \<and> p AND 0x0F0F0F0F = p \<and> 0 \<le> p \<and> p < 2 ^ 32"
proof -
  have b: "1023 < imageSize" "0 < imageSize"
    by (simp_all add: imageSize_def)
  from applyMask_within_mask [OF witness_canvas witness_canvas(2,3) b,
      of "0x0F0F0F0F" "0xFFFFFFFF"]
  show ?thesis
    by (simp add: getPixelColor_create b)
qed

section \<open>Properties of the canvas operations\<close>

lemma coords_iff: "(x, y) \<in> set (coords 0 0 w h) \<longleftrightarrow> x < w \<and> y < h"
  by (auto simp: coords_def image_iff)

lemma pasteTarget_dims:
  "width b' = width b \<Longrightarrow> height b' = height b \<Longrightarrow> pasteTarget b' ox oy = pasteTarget b ox oy"
  by (rule ext) (simp add: pasteTarget_def Let_def)

lemma pasteAt_dims:
  "width b' = width b \<Longrightarrow> height b' = height b \<Longrightarrow> pasteAt b' ov ox oy = pasteAt b ov ox oy"
  by (rule ext, rule ext) (simp add: pasteAt_def pasteTarget_dims [of b' b])

lemma paste_step:
  assumes "x < width overlay" and "y < height overlay"
  shows "paste overlay ox oy x y base =
           Inr (base\<lparr>pixels := pasteAt base overlay ox oy (x, y) (pixels base)\<rparr>)"
proof -
  let ?bx = "ox + int x" and ?by = "oy + int y"
  show ?thesis
  proof (cases "0 \<le> ?bx \<and> ?bx < int (width base) \<and> 0 \<le> ?by \<and> ?by < int (height base)")
    case True
    then have "nat ?bx < width base" "nat ?by < height base"
      by linarith+
    with True assms show ?thesis
      by (simp add: paste_def pasteAt_def pasteTarget_def getPixelColor_def setPixelColor_def Let_def)
  next
    case False
    then show ?thesis
      by (auto simp: paste_def pasteAt_def pasteTarget_def Let_def)
  qed
qed

lemma visit_paste:
  assumes "\<forall>c\<in>set cs. fst c < width overlay \<and> snd c < height overlay"
  shows "visit cs (paste overlay ox oy) base =
           Inr (base\<lparr>pixels := fold (pasteAt base overlay ox oy) cs (pixels base)\<rparr>)"
  using assms
proof (induction cs arbitrary: base)
  case Nil
  show ?case by simp
next
  case (Cons c cs)
  obtain x y where c: "c = (x, y)" by (cases c)
  let ?base' = "base\<lparr>pixels := pasteAt base overlay ox oy (x, y) (pixels base)\<rparr>"
  have step: "paste overlay ox oy x y base = Inr ?base'"
    using Cons.prems c by (intro paste_step) simp_all
  have "visit cs (paste overlay ox oy) ?base' =
          Inr (?base'\<lparr>pixels := fold (pasteAt ?base' overlay ox oy) cs (pixels ?base')\<rparr>)"
    using Cons.prems by (intro Cons.IH) simp_all
  moreover have "pasteAt ?base' overlay ox oy = pasteAt base overlay ox oy"
    by (rule pasteAt_dims) simp_all
  ultimately show ?case
    by (simp add: c step)
qed

lemma length_pasteAt: "length (pasteAt b ov ox oy c ps) = length ps"
  by (simp add: pasteAt_def split: option.split)

lemma length_fold_pasteAt: "length (fold (pasteAt b ov ox oy) cs ps) = length ps"
  by (induction cs arbitrary: ps) (simp_all add: length_pasteAt)

lemma pasteAt_nth:
  "k < length ps \<Longrightarrow>
   pasteAt b ov ox oy c ps ! k =
     (if pasteTarget b ox oy c = Some k then pixels ov ! (width ov * snd c + fst c) else ps ! k)"
  by (auto simp: pasteAt_def split: option.split)

lemma fold_pasteAt_untouched:
  "k < length ps \<Longrightarrow> \<forall>c\<in>set cs. pasteTarget b ox oy c \<noteq> Some k \<Longrightarrow>
   fold (pasteAt b ov ox oy) cs ps ! k = ps ! k"
  by (induction cs arbitrary: ps) (simp_all add: length_pasteAt pasteAt_nth)

lemma fold_pasteAt_hit:
  assumes "k < length ps"
    and "\<exists>c\<in>set cs. pasteTarget b ox oy c = Some k"
    and "\<forall>c\<in>set cs. pasteTarget b ox oy c = Some k \<longrightarrow> pixels ov ! (width ov * snd c + fst c) = a"
  shows "fold (pasteAt b ov ox oy) cs ps ! k = a"
  using assms
proof (induction cs arbitrary: ps)
  case Nil
  then show ?case by simp
next
  case (Cons c cs)
  show ?case
  proof (cases "\<exists>c'\<in>set cs. pasteTarget b ox oy c' = Some k")
    case True
    then have "fold (pasteAt b ov ox oy) cs (pasteAt b ov ox oy c ps) ! k = a"
      using Cons.prems by (intro Cons.IH) (simp_all add: length_pasteAt)
    then show ?thesis by simp
  next
    case False
    then have c: "pasteTarget b ox oy c = Some k"
      using Cons.prems(2) by auto
    have "fold (pasteAt b ov ox oy) cs (pasteAt b ov ox oy c ps) ! k = pasteAt b ov ox oy c ps ! k"
      using False Cons.prems(1) by (intro fold_pasteAt_untouched) (simp_all add: length_pasteAt)
    also have "\<dots> = a"
      using c Cons.prems(1,3) by (simp add: pasteAt_nth)
    finally show ?thesis by simp
  qed
qed

lemma pixel_index_inj:
  assumes "u < w" and "u' < w" and "w * v + u = w * v' + (u' :: nat)"
  shows "u = u' \<and> v = v'"
proof -
  have "(w * v + u) mod w = (w * v' + u') mod w" "(w * v + u) div w = (w * v' + u') div w"
    using assms(3) by simp_all
  then show ?thesis
    using assms(1,2) by simp
qed

lemma pasteTarget_eq_iff:
  assumes "u < width b" and "v < height b"
  shows "pasteTarget b ox oy (x, y) = Some (width b * v + u) \<longleftrightarrow>
           ox + int x = int u \<and> oy + int y = int v"
proof
  assume "pasteTarget b ox oy (x, y) = Some (width b * v + u)"
  then have r: "0 \<le> ox + int x" "ox + int x < int (width b)" "0 \<le> oy + int y"
      and e: "width b * nat (oy + int y) + nat (ox + int x) = width b * v + u"
    by (simp_all add: pasteTarget_def Let_def split: if_splits)
  have "nat (ox + int x) < width b"
    using r by simp
  from pixel_index_inj [OF this assms(1) e]
  have "nat (ox + int x) = u" "nat (oy + int y) = v"
    by simp_all
  with r show "ox + int x = int u \<and> oy + int y = int v"
    by (simp add: nat_eq_iff)
next
  assume "ox + int x = int u \<and> oy + int y = int v"
  then show "pasteTarget b ox oy (x, y) = Some (width b * v + u)"
    using assms by (simp add: pasteTarget_def)
qed


lemma composite_closed_form:
  "composite base overlay ox oy =
     Inr (base\<lparr>pixels := fold (pasteAt base overlay ox oy)
                           (coords 0 0 (width overlay) (height overlay)) (pixels base)\<rparr>)"
  unfolding composite_def scan_def
  by (rule visit_paste) (auto simp: coords_iff)

lemma composite_pixel:
  assumes "wf_image base" and "u < width base" and "v < height base"
  shows "fold (pasteAt base overlay ox oy) (coords 0 0 (width overlay) (height overlay))
             (pixels base) ! (width base * v + u) =
           (if ox \<le> int u \<and> int u < ox + int (width overlay)
               \<and> oy \<le> int v \<and> int v < oy + int (height overlay)
            then pixels overlay ! (width overlay * nat (int v - oy) + nat (int u - ox))
            else pixels base ! (width base * v + u))"
proof -
  let ?cs = "coords 0 0 (width overlay) (height overlay)"
  let ?k = "width base * v + u"
  have k: "?k < length (pixels base)"
    using assms by (rule pixel_index_bound)
  have tgt: "pasteTarget base ox oy c = Some ?k \<longleftrightarrow> ox + int (fst c) = int u \<and> oy + int (snd c) = int v"
    for c
    using pasteTarget_eq_iff [OF assms(2,3), of ox oy "fst c" "snd c"] by simp
  show ?thesis
  proof (cases "ox \<le> int u \<and> int u < ox + int (width overlay)
               \<and> oy \<le> int v \<and> int v < oy + int (height overlay)")
    case True
    let ?x = "nat (int u - ox)" and ?y = "nat (int v - oy)"
    have "?x < width overlay" "?y < height overlay"
      using True by linarith+
    then have "(?x, ?y) \<in> set ?cs"
      by (simp add: coords_iff)
    moreover have "pasteTarget base ox oy (?x, ?y) = Some ?k"
      using True by (simp add: tgt)
    ultimately have ex: "\<exists>c\<in>set ?cs. pasteTarget base ox oy c = Some ?k"
      by blast
    have "\<forall>c\<in>set ?cs. pasteTarget base ox oy c = Some ?k \<longrightarrow>
            pixels overlay ! (width overlay * snd c + fst c)
              = pixels overlay ! (width overlay * ?y + ?x)"
    proof (intro ballI impI)
      fix c
      assume "pasteTarget base ox oy c = Some ?k"
      then have "ox + int (fst c) = int u" "oy + int (snd c) = int v"
        by (simp_all add: tgt)
      then have "fst c = ?x" "snd c = ?y"
        by linarith+
      then show "pixels overlay ! (width overlay * snd c + fst c)
              = pixels overlay ! (width overlay * ?y + ?x)"
        by simp
    qed
    from fold_pasteAt_hit [OF k ex this] show ?thesis
      unfolding if_P [OF True] .
  next
    case False
    have "\<forall>c\<in>set ?cs. pasteTarget base ox oy c \<noteq> Some ?k"
    proof (intro ballI notI)
      fix c
      assume c: "c \<in> set ?cs" and "pasteTarget base ox oy c = Some ?k"
      then have "ox + int (fst c) = int u" "oy + int (snd c) = int v"
        by (simp_all add: tgt)
      moreover have "fst c < width overlay" "snd c < height overlay"
        using c coords_iff [of "fst c" "snd c"] by simp_all
      ultimately have "ox \<le> int u \<and> int u < ox + int (width overlay)
               \<and> oy \<le> int v \<and> int v < oy + int (height overlay)"
        by linarith
      with False show False ..
    qed
    from fold_pasteAt_untouched [OF k this] show ?thesis
      unfolding if_not_P [OF False] .
  qed
qed

text \<open>
  Claim C8. \<open>composite\<close> returns an image of the base's size in which every pixel
  covered by the overlay (shifted by the offset) holds exactly the overlay's pixel, with no
  blending, and every other pixel holds the base's pixel; overlay pixels that land outside
  the base change nothing and raise no error.
\<close>

theorem composite_overwrites:
  assumes "wf_image base"
  shows "\<exists>out. composite base overlay ox oy = Inr out
           \<and> width out = width base \<and> height out = height base
           \<and> (\<forall>u v. u < width base \<and> v < height base \<longrightarrow>
                 getPixelColor out u v =
                   (if ox \<le> int u \<and> int u < ox + int (width overlay)
                       \<and> oy \<le> int v \<and> int v < oy + int (height overlay)
                    then getPixelColor overlay (nat (int u - ox)) (nat (int v - oy))
                    else getPixelColor base u v))"
proof -
  let ?out = "base\<lparr>pixels := fold (pasteAt base overlay ox oy)
                           (coords 0 0 (width overlay) (height overlay)) (pixels base)\<rparr>"
  have "getPixelColor ?out u v =
          (if ox \<le> int u \<and> int u < ox + int (width overlay)
              \<and> oy \<le> int v \<and> int v < oy + int (height overlay)
           then getPixelColor overlay (nat (int u - ox)) (nat (int v - oy))
           else getPixelColor base u v)"
    if uv: "u < width base \<and> v < height base" for u v
  proof (cases "ox \<le> int u \<and> int u < ox + int (width overlay)
               \<and> oy \<le> int v \<and> int v < oy + int (height overlay)")
    case True
    then have "nat (int u - ox) < width overlay" "nat (int v - oy) < height overlay"
      by linarith+
    then have "getPixelColor overlay (nat (int u - ox)) (nat (int v - oy)) =
        Inr (uint (pixels overlay ! (width overlay * nat (int v - oy) + nat (int u - ox))))"
      by (simp add: getPixelColor_def)
    moreover have "getPixelColor ?out u v =
        Inr (uint (pixels overlay ! (width overlay * nat (int v - oy) + nat (int u - ox))))"
      using uv composite_pixel [OF assms, of u v overlay ox oy]
      unfolding if_P [OF True] by (simp add: getPixelColor_def)
    ultimately show ?thesis
      unfolding if_P [OF True] by simp
  next
    case False
    have "getPixelColor ?out u v = getPixelColor base u v"
      using uv composite_pixel [OF assms, of u v overlay ox oy]
      unfolding if_not_P [OF False] by (simp add: getPixelColor_def)
    then show ?thesis
      unfolding if_not_P [OF False] .
  qed
  then show ?thesis
    using composite_closed_form [of base overlay ox oy] by simp
qed

theorem composite_overwrites_witness:
  "wf_image (create 2 2 7)
   \<and> (\<exists>out. composite (create 2 2 7) (create 2 2 9) 1 0 = Inr out
         \<and> width out = 2 \<and> height out = 2
         \<and> getPixelColor out 1 0 = Inr 9 \<and> getPixelColor out 0 0 = Inr 7)"
proof -
  have wf: "wf_image (create 2 2 7)"
    by (simp add: create_def wf_image_def)
  from composite_overwrites [OF wf, of "create 2 2 9" 1 0]
  obtain out where out: "composite (create 2 2 7) (create 2 2 9) 1 0 = Inr out"
      "width out = width (create 2 2 7)" "height out = height (create 2 2 7)"
      and px: "\<forall>u v. u < width (create 2 2 7) \<and> v < height (create 2 2 7) \<longrightarrow>
                 getPixelColor out u v =
                   (if 1 \<le> int u \<and> int u < 1 + int (width (create 2 2 9))
                       \<and> 0 \<le> int v \<and> int v < 0 + int (height (create 2 2 9))
                    then getPixelColor (create 2 2 9) (nat (int u - 1)) (nat (int v - 0))
                    else getPixelColor (create 2 2 7) u v)"
    by blast
  have "getPixelColor out 1 0 = Inr 9"
    using px [rule_format, of 1 0] by (simp add: getPixelColor_def create_def)
  moreover have "getPixelColor out 0 0 = Inr 7"
    using px [rule_format, of 0 0] by (simp add: getPixelColor_def create_def)
  moreover have "width out = 2" "height out = 2"
    using out(2,3) by (simp_all add: create_def)
  ultimately show ?thesis
    using wf out(1) by blast
qed

lemma assemble_canvas:
  "\<exists>img. assemble color resultIcon = Inr img \<and> wf_image img
         \<and> width img = imageSize \<and> height img = imageSize"
  unfolding assemble_def composite_closed_form
  by (simp add: wf_image_def create_def length_fold_pasteAt)

section \<open>Properties of the adaptive icon\<close>




lemma iconSize_value: "iconSize = 824"
  by (simp add: iconSize_def imageSize_def iconPadding_def)



section \<open>Properties of double arithmetic and of the centring offset\<close>

lemma powi_nonneg: "0 \<le> k \<Longrightarrow> (2::rat) powi k = 2 ^ nat k"
  by (simp add: power_int_def)

lemma powi_neg: "0 \<le> k \<Longrightarrow> (2::rat) powi (- k) = 1 / 2 ^ nat k"
  by (simp add: power_int_minus_divide powi_nonneg)

lemma bitlen_pos: "0 < n \<Longrightarrow> 1 \<le> bitlen n"
  using bitlen_eq_zero_iff [of n] bitlen_nonneg [of n] by linarith

lemma exponent_le:
  assumes "x \<noteq> 0"
  shows "2 powi exponent x \<le> \<bar>x\<bar>"
proof (cases "1 \<le> \<bar>x\<bar>")
  case True
  let ?n = "\<lfloor>\<bar>x\<bar>\<rfloor>"
  have n: "0 < ?n" using True by simp
  have "(2::int) ^ nat (bitlen ?n - 1) \<le> ?n"
    using bitlen_bounds [OF n] by simp
  then have "(of_int (2 ^ nat (bitlen ?n - 1)) :: rat) \<le> of_int ?n"
    by (simp only: of_int_le_iff)
  also have "\<dots> \<le> \<bar>x\<bar>" by simp
  finally have "(2::rat) ^ nat (bitlen ?n - 1) \<le> \<bar>x\<bar>" by simp
  moreover have "0 \<le> bitlen ?n - 1"
    using bitlen_pos [OF n] by simp
  ultimately show ?thesis
    using True by (simp add: exponent_def powi_nonneg)
next
  case False
  let ?r = "1 / \<bar>x\<bar>"
  let ?n = "\<lceil>?r\<rceil> - 1"
  have x: "0 < \<bar>x\<bar>" "\<bar>x\<bar> < 1" using assms False by simp_all
  then have r: "1 < ?r" by simp
  then have n: "0 < ?n" by linarith
  have "?n < 2 ^ nat (bitlen ?n)"
    using bitlen_bounds [OF n] by simp
  then have "\<lceil>?r\<rceil> \<le> 2 ^ nat (bitlen ?n)" by simp
  then have "?r \<le> of_int (2 ^ nat (bitlen ?n))"
    by (simp only: ceiling_le_iff)
  then have "?r \<le> 2 ^ nat (bitlen ?n)" by simp
  then have "1 / 2 ^ nat (bitlen ?n) \<le> \<bar>x\<bar>"
    using x(1) by (simp add: field_simps)
  moreover have "0 \<le> bitlen ?n" by (rule bitlen_nonneg)
  ultimately show ?thesis
    using False by (simp add: exponent_def powi_neg)
qed

lemma exponent_gt:
  assumes "x \<noteq> 0"
  shows "\<bar>x\<bar> < 2 powi (exponent x + 1)"
proof (cases "1 \<le> \<bar>x\<bar>")
  case True
  let ?n = "\<lfloor>\<bar>x\<bar>\<rfloor>"
  have n: "0 < ?n" using True by simp
  have "?n + 1 \<le> 2 ^ nat (bitlen ?n)"
    using bitlen_bounds [OF n] by simp
  then have "(of_int (?n + 1) :: rat) \<le> of_int (2 ^ nat (bitlen ?n))"
    by (simp only: of_int_le_iff)
  moreover have "\<bar>x\<bar> < of_int (?n + 1)"
    by linarith
  ultimately have "\<bar>x\<bar> < 2 ^ nat (bitlen ?n)" by simp
  then show ?thesis
    using True bitlen_nonneg [of ?n] by (simp add: exponent_def powi_nonneg)
next
  case False
  let ?r = "1 / \<bar>x\<bar>"
  let ?n = "\<lceil>?r\<rceil> - 1"
  let ?k = "bitlen ?n"
  have x: "0 < \<bar>x\<bar>" "\<bar>x\<bar> < 1" using assms False by simp_all
  then have r: "1 < ?r" by simp
  then have n: "0 < ?n" by linarith
  have k: "1 \<le> ?k" using bitlen_pos [OF n] .
  have "2 ^ nat (?k - 1) \<le> ?n"
    using bitlen_bounds [OF n] by simp
  then have "(of_int (2 ^ nat (?k - 1)) :: rat) \<le> of_int ?n"
    by (simp only: of_int_le_iff)
  moreover have "of_int ?n < ?r"
    by linarith
  ultimately have "2 ^ nat (?k - 1) < ?r" by simp
  then have "\<bar>x\<bar> < 1 / 2 ^ nat (?k - 1)"
    using x(1) by (simp add: field_simps)
  moreover have "exponent x + 1 = - (?k - 1)"
    using False by (simp add: exponent_def)
  ultimately show ?thesis
    using k by (simp only: powi_neg)
qed

lemma roundTiesToEven_near: "\<bar>of_int (roundTiesToEven m) - m\<bar> \<le> 1 / 2"
  unfolding roundTiesToEven_def Let_def by (auto simp: abs_if; linarith)


lemma quantum_pos: "0 < quantum x"
  by (simp add: quantum_def)

lemma quantum_le:
  assumes "x \<noteq> 0"
  shows "quantum x \<le> \<bar>x\<bar> / 2 ^ 52 \<or> quantum x = 1 / 2 ^ 1074"
proof (cases "- 1022 \<le> exponent x")
  case True
  then have "quantum x = 2 powi (exponent x - 52)"
    by (simp add: quantum_def max_def)
  also have "\<dots> = 2 powi exponent x / 2 ^ 52"
    by (simp add: power_int_diff)
  also have "\<dots> \<le> \<bar>x\<bar> / 2 ^ 52"
    using exponent_le [OF assms] by (simp add: divide_right_mono)
  finally show ?thesis by simp
next
  case False
  then have "quantum x = 2 powi (- 1074)"
    by (simp add: quantum_def max_def)
  also have "\<dots> = 1 / 2 ^ nat 1074"
    by (rule powi_neg) simp
  finally show ?thesis by simp
qed

lemma halfMin_small: "0 < halfMin" "halfMin \<le> 1 / 2 ^ 64"
proof -
  show "0 < halfMin" by (simp add: halfMin_def)
  have "(2::rat) ^ 64 \<le> 2 ^ 1075"
    by (rule power_increasing) simp_all
  then show "halfMin \<le> 1 / 2 ^ 64"
    unfolding halfMin_def by (intro divide_left_mono) simp_all
qed

lemma round_to_quantum:
  assumes "x \<noteq> 0"
  shows "\<bar>of_int (roundTiesToEven (x / quantum x)) * quantum x - x\<bar> \<le> \<bar>x\<bar> / 2 ^ 53 + halfMin"
proof -
  let ?q = "quantum x"
  let ?n = "roundTiesToEven (x / ?q)"
  have q: "0 < ?q" by (rule quantum_pos)
  have "of_int ?n * ?q - x = (of_int ?n - x / ?q) * ?q"
    using q by (simp add: left_diff_distrib)
  then have "\<bar>of_int ?n * ?q - x\<bar> = \<bar>of_int ?n - x / ?q\<bar> * \<bar>?q\<bar>"
    by (simp only: abs_mult)
  also have "\<dots> = \<bar>of_int ?n - x / ?q\<bar> * ?q"
    using q by simp
  also have "\<dots> \<le> 1 / 2 * ?q"
    using roundTiesToEven_near [of "x / ?q"] q by (intro mult_right_mono) simp_all
  finally have h: "\<bar>of_int ?n * ?q - x\<bar> \<le> ?q / 2" by simp
  from quantum_le [OF assms] show ?thesis
  proof
    assume "?q \<le> \<bar>x\<bar> / 2 ^ 52"
    then have "?q / 2 \<le> \<bar>x\<bar> / 2 ^ 53" by simp
    with h halfMin_small(1) show ?thesis by linarith
  next
    assume "?q = 1 / 2 ^ 1074"
    then have "?q / 2 = halfMin" by (simp add: halfMin_def)
    moreover have "0 \<le> \<bar>x\<bar> / 2 ^ 53" by simp
    ultimately show ?thesis using h by linarith
  qed
qed

lemma toDouble_near:
  assumes "\<bar>x\<bar> \<le> 1024"
  shows "\<exists>y. toDouble x = Some y \<and> \<bar>y - x\<bar> \<le> \<bar>x\<bar> / 2 ^ 53 + halfMin"
proof (cases "x = 0")
  case True
  then show ?thesis
    using halfMin_small(1) by (simp add: toDouble_def)
next
  case False
  let ?y = "of_int (roundTiesToEven (x / quantum x)) * quantum x"
  have near: "\<bar>?y - x\<bar> \<le> \<bar>x\<bar> / 2 ^ 53 + halfMin"
    using False by (rule round_to_quantum)
  have "\<bar>x\<bar> / 2 ^ 53 \<le> 1"
    using assms by simp
  moreover have "halfMin \<le> 1"
  proof -
    have "(1::rat) / 2 ^ 64 \<le> 1" by simp
    with halfMin_small(2) show ?thesis by linarith
  qed
  ultimately have "\<bar>?y\<bar> \<le> 1026"
    using near assms by linarith
  also have "(1026::rat) < 2 ^ 11" by simp
  also have "(2::rat) ^ 11 \<le> 2 ^ 1024"
    by (rule power_increasing) simp_all
  finally have "\<bar>?y\<bar> < 2 ^ 1024" .
  then have "toDouble x = Some ?y"
    using False by (simp add: toDouble_def Let_def)
  with near show ?thesis by simp
qed


lemma powi_less_imp_less: "(2::rat) powi m < 2 powi n \<Longrightarrow> m < n"
proof (rule ccontr)
  assume lt: "(2::rat) powi m < 2 powi n" and "\<not> m < n"
  then have "n \<le> m" by simp
  then have "(2::rat) powi n \<le> 2 powi m"
    by (rule power_int_increasing) simp
  with lt show False by simp
qed

lemma exponent_eqI:
  assumes "2 powi e \<le> \<bar>x\<bar>" and "\<bar>x\<bar> < 2 powi (e + 1)"
  shows "exponent x = e"
proof -
  have "(0::rat) < 2 powi e" by simp
  with assms(1) have "0 < \<bar>x\<bar>" by linarith
  then have x: "x \<noteq> 0" by simp
  have "(2::rat) powi exponent x < 2 powi (e + 1)"
    using exponent_le [OF x] assms(2) by linarith
  then have "exponent x < e + 1" by (rule powi_less_imp_less)
  moreover have "(2::rat) powi e < 2 powi (exponent x + 1)"
    using exponent_gt [OF x] assms(1) by linarith
  then have "e < exponent x + 1" by (rule powi_less_imp_less)
  ultimately show ?thesis by simp
qed

lemma roundTiesToEven_eqI:
  assumes "\<bar>of_int n - m\<bar> < 1 / 2"
  shows "roundTiesToEven m = n"
proof -
  have "\<bar>of_int (roundTiesToEven m) - m\<bar> \<le> 1 / 2"
    by (rule roundTiesToEven_near)
  with assms have "\<bar>(of_int (roundTiesToEven m) :: rat) - of_int n\<bar> < 1"
    by linarith
  then have "\<bar>(of_int (roundTiesToEven m - n) :: rat)\<bar> < 1"
    by simp
  then have "\<bar>roundTiesToEven m - n\<bar> < 1"
    by (metis of_int_abs of_int_less_1_iff)
  then show ?thesis by simp
qed

text \<open>A certificate for one rounding in the normal range.\<close>

lemma toDouble_eqI:
  assumes "2 powi e \<le> \<bar>x\<bar>" and "\<bar>x\<bar> < 2 powi (e + 1)"
    and "- 1022 \<le> e" and "q = 2 powi (e - 52)"
    and "\<bar>of_int n - x / q\<bar> < 1 / 2"
    and "\<bar>of_int n * q\<bar> < 2 ^ 1024"
  shows "toDouble x = Some (of_int n * q)"
proof -
  have "(0::rat) < 2 powi e" by simp
  with assms(1) have "0 < \<bar>x\<bar>" by linarith
  then have x: "x \<noteq> 0" by simp
  have "exponent x = e"
    using assms(1,2) by (rule exponent_eqI)
  then have q: "quantum x = q"
    using assms(3,4) by (simp add: quantum_def max_def)
  have "roundTiesToEven (x / q) = n"
    using assms(5) by (rule roundTiesToEven_eqI)
  then show ?thesis
    using x q assms(6) by (simp add: toDouble_def)
qed

lemma toDouble_095: "toDouble (95 / 100) = Some (4278419646001971 / 2 ^ 52)"
  using toDouble_eqI [of "-1" "95 / 100" "1 / 2 ^ 53" 8556839292003942]
  by simp

lemma toDouble_09: "toDouble (9 / 10) = Some (8106479329266893 / 2 ^ 53)"
  using toDouble_eqI [of "-1" "9 / 10" "1 / 2 ^ 53" 8106479329266893]
  by simp


lemma rounding_bound:
  fixes x y :: rat
  assumes "\<bar>y - x\<bar> \<le> \<bar>x\<bar> / 2 ^ 53 + halfMin" and "\<bar>x\<bar> \<le> B"
  shows "\<bar>y - x\<bar> \<le> B / 2 ^ 53 + halfMin"
proof -
  have "\<bar>x\<bar> / 2 ^ 53 \<le> B / 2 ^ 53"
    using assms(2) by (intro divide_right_mono) simp_all
  with assms(1) show ?thesis by linarith
qed

lemma scalePositionAt_near:
  assumes "0 \<le> s" and "s \<le> 1"
  shows "\<exists>off. scalePositionAt s = Some off \<and> \<bar>off - 412 * (1 - s)\<bar> \<le> 1 / 2 ^ 42"
proof -
  note h = halfMin_small(2)
  have a0: "\<bar>1 - s\<bar> \<le> 1" using assms by simp
  then have "\<bar>1 - s\<bar> \<le> 1024" by simp
  from toDouble_near [OF this] obtain a where
    a: "toDouble (1 - s) = Some a" "\<bar>a - (1 - s)\<bar> \<le> \<bar>1 - s\<bar> / 2 ^ 53 + halfMin"
    by blast
  have a1: "\<bar>a - (1 - s)\<bar> \<le> 1 / 2 ^ 53 + halfMin"
    using a(2) a0 by (rule rounding_bound)
  have a2: "\<bar>824 * a\<bar> \<le> 825"
    using a1 assms h by (simp add: abs_le_iff algebra_simps)
  then have "\<bar>824 * a\<bar> \<le> 1024" by simp
  from toDouble_near [OF this] obtain b where
    b: "toDouble (824 * a) = Some b" "\<bar>b - 824 * a\<bar> \<le> \<bar>824 * a\<bar> / 2 ^ 53 + halfMin"
    by blast
  have b1: "\<bar>b - 824 * a\<bar> \<le> 825 / 2 ^ 53 + halfMin"
    using b(2) a2 by (rule rounding_bound)
  have b2: "\<bar>b / 2\<bar> \<le> 413"
    using b1 a2 h by (simp add: abs_le_iff algebra_simps)
  then have "\<bar>b / 2\<bar> \<le> 1024" by simp
  from toDouble_near [OF this] obtain c where
    c: "toDouble (b / 2) = Some c" "\<bar>c - b / 2\<bar> \<le> \<bar>b / 2\<bar> / 2 ^ 53 + halfMin"
    by blast
  have c1: "\<bar>c - b / 2\<bar> \<le> 413 / 2 ^ 53 + halfMin"
    using c(2) b2 by (rule rounding_bound)
  have "scalePositionAt s = Some c"
    using a(1) b(1) c(1) by (simp add: scalePositionAt_def js_sub_def js_mul_def js_div_def iconSize_value)
  moreover have "\<bar>c - 412 * (1 - s)\<bar> \<le> 1 / 2 ^ 42"
    using a1 b1 c1 h unfolding abs_le_iff by (auto simp add: algebra_simps)
  ultimately show ?thesis by blast
qed

lemma symmetricPadding_near:
  assumes "0 \<le> s" and "s \<le> 1"
  shows "\<exists>pad. symmetricPadding s = Some pad \<and> \<bar>pad - 412 * (1 - s)\<bar> \<le> 1 / 2 ^ 42"
proof -
  note h = halfMin_small(2)
  have z0: "\<bar>824 * s\<bar> \<le> 824" using assms by simp
  then have "\<bar>824 * s\<bar> \<le> 1024" by simp
  from toDouble_near [OF this] obtain z where
    z: "toDouble (824 * s) = Some z" "\<bar>z - 824 * s\<bar> \<le> \<bar>824 * s\<bar> / 2 ^ 53 + halfMin"
    by blast
  have z1: "\<bar>z - 824 * s\<bar> \<le> 824 / 2 ^ 53 + halfMin"
    using z(2) z0 by (rule rounding_bound)
  have d0: "\<bar>824 - z\<bar> \<le> 825"
    using z1 assms h by (simp add: abs_le_iff algebra_simps)
  then have "\<bar>824 - z\<bar> \<le> 1024" by simp
  from toDouble_near [OF this] obtain d where
    d: "toDouble (824 - z) = Some d" "\<bar>d - (824 - z)\<bar> \<le> \<bar>824 - z\<bar> / 2 ^ 53 + halfMin"
    by blast
  have d1: "\<bar>d - (824 - z)\<bar> \<le> 825 / 2 ^ 53 + halfMin"
    using d(2) d0 by (rule rounding_bound)
  have d2: "\<bar>d / 2\<bar> \<le> 413"
    using d1 d0 h by (simp add: abs_le_iff algebra_simps)
  then have "\<bar>d / 2\<bar> \<le> 1024" by simp
  from toDouble_near [OF this] obtain p where
    p: "toDouble (d / 2) = Some p" "\<bar>p - d / 2\<bar> \<le> \<bar>d / 2\<bar> / 2 ^ 53 + halfMin"
    by blast
  have p1: "\<bar>p - d / 2\<bar> \<le> 413 / 2 ^ 53 + halfMin"
    using p(2) d2 by (rule rounding_bound)
  have "symmetricPadding s = Some p"
    using z(1) d(1) p(1)
    by (simp add: symmetricPadding_def js_sub_def js_mul_def js_div_def iconSize_value)
  moreover have "\<bar>p - 412 * (1 - s)\<bar> \<le> 1 / 2 ^ 42"
    using z1 d1 p1 h unfolding abs_le_iff by (auto simp add: algebra_simps)
  ultimately show ?thesis by blast
qed

text \<open>Concrete evaluation at 0.95 and 0.9.\<close>

lemma scalePositionAt_095:
  "scalePositionAt (4278419646001971 / 2 ^ 52) = Some (5798384520239519 / 2 ^ 48)"
proof -
  have a: "toDouble (1 - 4278419646001971 / 2 ^ 52) = Some (225179981368525 / 2 ^ 52)"
    using toDouble_eqI [of "-5" "1 - 4278419646001971 / 2 ^ 52" "1 / 2 ^ 57" 7205759403792800]
    by simp
  have b: "toDouble (824 * (225179981368525 / 2 ^ 52)) = Some (5798384520239519 / 2 ^ 47)"
    using toDouble_eqI [of 5 "824 * (225179981368525 / 2 ^ 52)" "1 / 2 ^ 47" 5798384520239519]
    by simp
  have c: "toDouble (5798384520239519 / 2 ^ 47 / 2) = Some (5798384520239519 / 2 ^ 48)"
    using toDouble_eqI [of 4 "5798384520239519 / 2 ^ 47 / 2" "1 / 2 ^ 48" 5798384520239519]
    by simp
  show ?thesis
    unfolding scalePositionAt_def js_sub_def js_mul_def js_div_def iconSize_value
    using a b c by simp
qed

lemma symmetricPadding_095:
  "symmetricPadding (4278419646001971 / 2 ^ 52) = Some (5798384520239520 / 2 ^ 48)"
proof -
  have z: "toDouble (824 * (4278419646001971 / 2 ^ 52)) = Some (3442790808892211 / 2 ^ 42)"
    using toDouble_eqI [of 9 "824 * (4278419646001971 / 2 ^ 52)" "1 / 2 ^ 43" 6885581617784422]
    by simp
  have d: "toDouble (824 - 3442790808892211 / 2 ^ 42) = Some (181199516257485 / 2 ^ 42)"
    using toDouble_eqI [of 5 "824 - 3442790808892211 / 2 ^ 42" "1 / 2 ^ 47" 5798384520239520]
    by simp
  have p: "toDouble (181199516257485 / 2 ^ 42 / 2) = Some (181199516257485 / 2 ^ 43)"
    using toDouble_eqI [of 4 "181199516257485 / 2 ^ 42 / 2" "1 / 2 ^ 48" 5798384520239520]
    by simp
  show ?thesis
    unfolding symmetricPadding_def js_sub_def js_mul_def js_div_def iconSize_value
    using z d p by simp
qed

lemma scalePositionAt_09:
  "scalePositionAt (8106479329266893 / 2 ^ 53) = Some (724798065029939 / 2 ^ 44)"
proof -
  have a: "toDouble (1 - 8106479329266893 / 2 ^ 53) = Some (900719925474099 / 2 ^ 53)"
    using toDouble_eqI [of "-4" "1 - 8106479329266893 / 2 ^ 53" "1 / 2 ^ 56" 7205759403792792]
    by simp
  have b: "toDouble (824 * (900719925474099 / 2 ^ 53)) = Some (724798065029939 / 2 ^ 43)"
    using toDouble_eqI [of 6 "824 * (900719925474099 / 2 ^ 53)" "1 / 2 ^ 46" 5798384520239512]
    by simp
  have c: "toDouble (724798065029939 / 2 ^ 43 / 2) = Some (724798065029939 / 2 ^ 44)"
    using toDouble_eqI [of 5 "724798065029939 / 2 ^ 43 / 2" "1 / 2 ^ 47" 5798384520239512]
    by simp
  show ?thesis
    unfolding scalePositionAt_def js_sub_def js_mul_def js_div_def iconSize_value
    using a b c by simp
qed

lemma symmetricPadding_09:
  "symmetricPadding (8106479329266893 / 2 ^ 53) = Some (724798065029939 / 2 ^ 44)"
proof -
  have z: "toDouble (824 * (8106479329266893 / 2 ^ 53)) = Some (6523182585269453 / 2 ^ 43)"
    using toDouble_eqI [of 9 "824 * (8106479329266893 / 2 ^ 53)" "1 / 2 ^ 43" 6523182585269453]
    by simp
  have d: "toDouble (824 - 6523182585269453 / 2 ^ 43) = Some (724798065029939 / 2 ^ 43)"
    using toDouble_eqI [of 6 "824 - 6523182585269453 / 2 ^ 43" "1 / 2 ^ 46" 5798384520239512]
    by simp
  have p: "toDouble (724798065029939 / 2 ^ 43 / 2) = Some (724798065029939 / 2 ^ 44)"
    using toDouble_eqI [of 5 "724798065029939 / 2 ^ 43 / 2" "1 / 2 ^ 47" 5798384520239512]
    by simp
  show ?thesis
    unfolding symmetricPadding_def js_sub_def js_mul_def js_div_def iconSize_value
    using z d p by simp
qed

lemma scalePositionAt_1: "scalePositionAt 1 = Some 0"
  by (simp add: scalePositionAt_def js_sub_def js_mul_def js_div_def toDouble_def)

lemma selectPolicy_cases:
  "(hasAlpha originalIcon \<and>
      selectPolicy parseFloat scale originalIcon =
        (ShrinkToFit (of_nat iconSize * parseFloat (or_default scale ''0.9''))
                     (of_nat iconSize * parseFloat (or_default scale ''0.9'')),
         parseFloat (or_default scale ''0.9'')))
   \<or> (\<not> hasAlpha originalIcon \<and>
      selectPolicy parseFloat scale originalIcon =
        (FillAndCrop (of_nat iconSize) (of_nat iconSize), 1))"
  by (simp add: selectPolicy_def Let_def)

text \<open>
  Claim C7 as stated fails: at the scale 0.95 (the double nearest to it) the icon has alpha,
  shrink-to-fit is chosen, and the offset the code computes, \<open>iconSize * (1 - scale) / 2\<close>,
  is the double \<open>5798384520239519 / 2^48\<close> (20.60000000000002), while
  \<open>(iconSize - scaledSize) / 2\<close> is \<open>5798384520239520 / 2^48\<close> (20.600000000000023) in
  doubles; the offset differs from the exact value of that formula as well.
\<close>

theorem scalePosition_centre_counterexample:
  "toDouble (95 / 100) = Some (4278419646001971 / 2 ^ 52)
   \<and> fst (selectPolicy (\<lambda>s. 4278419646001971 / 2 ^ 52) (Some ''0.95'') (create 1 1 0))
       = ShrinkToFit (824 * (4278419646001971 / 2 ^ 52)) (824 * (4278419646001971 / 2 ^ 52))
   \<and> scalePosition (\<lambda>s. 4278419646001971 / 2 ^ 52) (Some ''0.95'') (create 1 1 0)
       = Some (5798384520239519 / 2 ^ 48)
   \<and> symmetricPadding (4278419646001971 / 2 ^ 52) = Some (5798384520239520 / 2 ^ 48)
   \<and> (5798384520239519 / 2 ^ 48 :: rat) \<noteq> 5798384520239520 / 2 ^ 48
   \<and> (5798384520239519 / 2 ^ 48 :: rat) \<noteq> (824 - 824 * (4278419646001971 / 2 ^ 52)) / 2"
proof -
  have sel: "selectPolicy (\<lambda>s. 4278419646001971 / 2 ^ 52) (Some ''0.95'') (create 1 1 0)
      = (ShrinkToFit (824 * (4278419646001971 / 2 ^ 52)) (824 * (4278419646001971 / 2 ^ 52)),
         4278419646001971 / 2 ^ 52)"
    by (simp add: selectPolicy_def hasAlpha_def create_def alpha_def iconSize_value)
  have "scalePosition (\<lambda>s. 4278419646001971 / 2 ^ 52) (Some ''0.95'') (create 1 1 0)
       = Some (5798384520239519 / 2 ^ 48)"
    unfolding scalePosition_def sel snd_conv by (rule scalePositionAt_095)
  moreover have "(5798384520239519 / 2 ^ 48 :: rat) \<noteq> 5798384520239520 / 2 ^ 48"
    "(5798384520239519 / 2 ^ 48 :: rat) \<noteq> (824 - 824 * (4278419646001971 / 2 ^ 52)) / 2"
    by simp_all
  ultimately show ?thesis
    using toDouble_095 symmetricPadding_095 sel by simp
qed

text \<open>
  Claim C7, amended. The centring offset is \<open>iconSize * (1 - scale) / 2\<close> in double
  arithmetic. It is exactly 0 when fill-and-crop was chosen. When shrink-to-fit was chosen
  with a scale between 0 and 1, the offset is a finite number that equals
  \<open>(iconArea - scaledSize) / 2\<close> up to rounding: it lies within \<open>2^-41\<close> of that formula
  evaluated in doubles and within \<open>2^-42\<close> of its exact value; at the default scale 0.9
  the two doubles are equal (\<open>724798065029939 / 2^44\<close>, printed 41.19999999999999).
\<close>

theorem scalePosition_near_centre:
  "(\<forall>w h. fst (selectPolicy parseFloat scale originalIcon) = FillAndCrop w h \<longrightarrow>
      scalePosition parseFloat scale originalIcon = Some 0)
   \<and> (\<forall>scaledW scaledH.
        fst (selectPolicy parseFloat scale originalIcon) = ShrinkToFit scaledW scaledH
        \<and> 0 \<le> parseFloat (or_default scale ''0.9'') \<and> parseFloat (or_default scale ''0.9'') \<le> 1 \<longrightarrow>
        (\<exists>off pad. scalePosition parseFloat scale originalIcon = Some off
           \<and> symmetricPadding (parseFloat (or_default scale ''0.9'')) = Some pad
           \<and> \<bar>off - pad\<bar> \<le> 1 / 2 ^ 41
           \<and> \<bar>off - (of_nat iconSize - scaledW) / 2\<bar> \<le> 1 / 2 ^ 42))
   \<and> (\<forall>scaledW scaledH.
        fst (selectPolicy parseFloat scale originalIcon) = ShrinkToFit scaledW scaledH
        \<and> parseFloat (or_default scale ''0.9'') = 8106479329266893 / 2 ^ 53 \<longrightarrow>
        scalePosition parseFloat scale originalIcon = Some (724798065029939 / 2 ^ 44)
        \<and> symmetricPadding (parseFloat (or_default scale ''0.9'')) = Some (724798065029939 / 2 ^ 44))"
proof -
  let ?s = "parseFloat (or_default scale ''0.9'')"
  from selectPolicy_cases [of originalIcon parseFloat scale] show ?thesis
  proof (elim disjE conjE)
    assume sel: "selectPolicy parseFloat scale originalIcon =
        (FillAndCrop (of_nat iconSize) (of_nat iconSize), 1)"
    then have "scalePosition parseFloat scale originalIcon = Some 0"
      by (simp add: scalePosition_def scalePositionAt_1)
    then show ?thesis
      by (simp add: sel)
  next
    assume sel: "selectPolicy parseFloat scale originalIcon =
        (ShrinkToFit (of_nat iconSize * ?s) (of_nat iconSize * ?s), ?s)"
    have pos: "scalePosition parseFloat scale originalIcon = scalePositionAt ?s"
      by (simp add: scalePosition_def sel)
    have near: "\<exists>off pad. scalePosition parseFloat scale originalIcon = Some off
           \<and> symmetricPadding ?s = Some pad
           \<and> \<bar>off - pad\<bar> \<le> 1 / 2 ^ 41
           \<and> \<bar>off - (of_nat iconSize - of_nat iconSize * ?s) / 2\<bar> \<le> 1 / 2 ^ 42"
      if r: "0 \<le> ?s" "?s \<le> 1"
    proof -
      from scalePositionAt_near [OF r] obtain off where
        off: "scalePositionAt ?s = Some off" "\<bar>off - 412 * (1 - ?s)\<bar> \<le> 1 / 2 ^ 42"
        by blast
      from symmetricPadding_near [OF r] obtain pad where
        pad: "symmetricPadding ?s = Some pad" "\<bar>pad - 412 * (1 - ?s)\<bar> \<le> 1 / 2 ^ 42"
        by blast
      have "\<bar>off - pad\<bar> \<le> 1 / 2 ^ 41"
        using off(2) pad(2) unfolding abs_le_iff by (auto simp add: algebra_simps)
      moreover have e: "(of_nat iconSize - of_nat iconSize * ?s) / 2 = 412 * (1 - ?s)"
        by (simp add: iconSize_value diff_divide_distrib right_diff_distrib)
      have "\<bar>off - (of_nat iconSize - of_nat iconSize * ?s) / 2\<bar> \<le> 1 / 2 ^ 42"
        unfolding e by (rule off(2))
      moreover have "scalePosition parseFloat scale originalIcon = Some off"
        using pos off(1) by simp
      ultimately show ?thesis
        using pad(1) by blast
    qed
    have dflt: "scalePosition parseFloat scale originalIcon = Some (724798065029939 / 2 ^ 44)
        \<and> symmetricPadding ?s = Some (724798065029939 / 2 ^ 44)"
      if "?s = 8106479329266893 / 2 ^ 53"
      unfolding pos that using scalePositionAt_09 symmetricPadding_09 by simp
    show ?thesis
      using near dflt by (simp add: sel)
  qed
qed


theorem scalePosition_near_centre_witness:
  "scalePosition (\<lambda>s. 8106479329266893 / 2 ^ 53) None (create 1 1 0x000000FF) = Some 0
   \<and> scalePosition (\<lambda>s. 8106479329266893 / 2 ^ 53) None (create 1 1 0)
       = Some (724798065029939 / 2 ^ 44)
   \<and> (\<exists>off pad. scalePosition (\<lambda>s. 8106479329266893 / 2 ^ 53) None (create 1 1 0) = Some off
         \<and> symmetricPadding (8106479329266893 / 2 ^ 53) = Some pad
         \<and> \<bar>off - pad\<bar> \<le> 1 / 2 ^ 41
         \<and> \<bar>off - (824 - 824 * (8106479329266893 / 2 ^ 53)) / 2\<bar> \<le> 1 / 2 ^ 42)"
proof -
  let ?pf = "\<lambda>s :: string. 8106479329266893 / 2 ^ 53 :: rat"
  have cover: "fst (selectPolicy ?pf None (create 1 1 0x000000FF)) = FillAndCrop 824 824"
    by (simp add: selectPolicy_def hasAlpha_def create_def alpha_def iconSize_value)
  have contain: "fst (selectPolicy ?pf None (create 1 1 0))
      = ShrinkToFit (824 * (8106479329266893 / 2 ^ 53)) (824 * (8106479329266893 / 2 ^ 53))"
    by (simp add: selectPolicy_def hasAlpha_def create_def alpha_def iconSize_value)
  have range: "0 \<le> ?pf (or_default None ''0.9'')" "?pf (or_default None ''0.9'') \<le> 1"
    by simp_all
  note t1 = scalePosition_near_centre [of ?pf None "create 1 1 0x000000FF"]
  note t2 = scalePosition_near_centre [of ?pf None "create 1 1 0"]
  have "scalePosition ?pf None (create 1 1 0x000000FF) = Some 0"
    using t1 cover by blast
  moreover have "scalePosition ?pf None (create 1 1 0) = Some (724798065029939 / 2 ^ 44)"
    using t2 contain by blast
  moreover have "\<exists>off pad. scalePosition ?pf None (create 1 1 0) = Some off
         \<and> symmetricPadding (?pf (or_default None ''0.9'')) = Some pad
         \<and> \<bar>off - pad\<bar> \<le> 1 / 2 ^ 41
         \<and> \<bar>off - (of_nat iconSize
               - 824 * (8106479329266893 / 2 ^ 53)) / 2\<bar> \<le> 1 / 2 ^ 42"
    using t2 contain range by blast
  ultimately show ?thesis
    by (simp add: iconSize_value)
qed

end
